theory Spec2Isabelle
  imports Main
begin

section \<open>Data model\<close>

text \<open>
  The document model of the repository: marks, node types, nodes and fragments.
  JavaScript numbers that count positions and sizes are integers (\<open>int\<close>); an
  exception is a value of \<open>error\<close> on the left of a sum.
\<close>

datatype error = RangeError | TypeError | ReplaceError | TransformError

type_synonym Attrs = "(string \<times> string) list"

record MarkType =
  mark_name :: string
  rank :: nat
  excludes :: "string list"

record Mark =
  mark_type :: MarkType
  mark_attrs :: Attrs

text \<open>
  Modelled from the spec: NodeType (schema.ts is not under src/). Only the flags that the
  code under src/ reads from a node's type are kept: \<open>isLeaf\<close>, \<open>isInline\<close> and
  \<open>spec.isolating\<close>. The content model of a type (\<open>validContent\<close>,
  \<open>compatibleContent\<close>, \<open>allowsMarkType\<close>) is the schema's and is passed to the
  functions that call it.
\<close>

record NodeType =
  type_name :: string
  isLeaf :: bool
  isInline :: bool
  isolating :: bool

text \<open>
  Modelled from the spec: Node and TextNode (node.ts is not under src/). A text node has
  marks and a text; every other node has a type, attributes, marks and a content
  fragment. A fragment is the array of its children with the cached \<open>size\<close> field of
  src/model/fragment.ts.
\<close>

datatype node =
    TextNode "Mark list" string
  | Node NodeType Attrs "Mark list" fragment
and fragment = Fragment (content: "node list") (fsize: int)

fun isText :: "node \<Rightarrow> bool" where
  "isText (TextNode ms s) = True"
| "isText (Node t a ms c) = False"

fun node_isLeaf :: "node \<Rightarrow> bool" where
  "node_isLeaf (TextNode ms s) = True"
| "node_isLeaf (Node t a ms c) = isLeaf t"

fun node_isInline :: "node \<Rightarrow> bool" where
  "node_isInline (TextNode ms s) = True"
| "node_isInline (Node t a ms c) = isInline t"

fun node_isolating :: "node \<Rightarrow> bool" where
  "node_isolating (TextNode ms s) = False"
| "node_isolating (Node t a ms c) = isolating t"

text \<open>The type of a text node is the schema's text type: an inline leaf.\<close>

definition text_type :: NodeType where
  "text_type = \<lparr>type_name = ''text'', isLeaf = True, isInline = True, isolating = False\<rparr>"

fun node_type :: "node \<Rightarrow> NodeType" where
  "node_type (TextNode ms s) = text_type"
| "node_type (Node t a ms c) = t"

fun marks :: "node \<Rightarrow> Mark list" where
  "marks (TextNode ms s) = ms"
| "marks (Node t a ms c) = ms"

fun node_text :: "node \<Rightarrow> string" where
  "node_text (TextNode ms s) = s"
| "node_text (Node t a ms c) = []"

definition Fragment_empty :: fragment where
  "Fragment_empty = Fragment [] 0"

fun node_content :: "node \<Rightarrow> fragment" where
  "node_content (TextNode ms s) = Fragment_empty"
| "node_content (Node t a ms c) = c"

text \<open>
  Modelled from the spec: Node.nodeSize (node.ts is not under src/). A text node counts
  its characters; any other node counts its content plus its own boundary accounting.
  That accounting is one unit for a leaf. For a node that holds content the callers under
  src/ count one opening and one closing unit: \<open>Slice.size\<close> takes one unit off the
  content size for every open level on either side, \<open>prepareSliceForReplace\<close> finds the
  end of the slice \<open>openEnd + extra\<close> units before the end of the wrapped content, and
  \<open>deleteCellSelection\<close> replaces the content of a cell between \<open>pos + 1\<close> and
  \<open>pos + cell.nodeSize - 1\<close>. The size of the content is the cached field.
\<close>

fun nodeSize :: "node \<Rightarrow> int" where
  "nodeSize (TextNode ms s) = int (length s)"
| "nodeSize (Node t a ms c) = (if isLeaf t then 1 else 2 + fsize c)"

text \<open>
  Modelled from the spec: Node.sameMarkup (type, attributes and marks agree). All text
  nodes share the text type and carry no attributes, so two text nodes have the same
  markup when their mark sets are equal; a text node and another node never have.
\<close>

fun sameMarkup :: "node \<Rightarrow> node \<Rightarrow> bool" where
  "sameMarkup (TextNode ms s) (TextNode ms' s') = (ms = ms')"
| "sameMarkup (Node t a ms c) (Node t' a' ms' c') = (t = t' \<and> a = a' \<and> ms = ms')"
| "sameMarkup (TextNode ms s) (Node t' a' ms' c') = False"
| "sameMarkup (Node t a ms c) (TextNode ms' s') = False"

text \<open>Modelled from the spec: TextNode.withText, the same marks around another text.\<close>

fun withText :: "node \<Rightarrow> string \<Rightarrow> node" where
  "withText (TextNode ms s) s' = TextNode ms s'"
| "withText (Node t a ms c) s' = Node t a ms c"

text \<open>
  Modelled from the spec: Node.copy, the same type, attributes and marks around another
  content. The callers under src/ copy only nodes that hold a fragment; a text node,
  which holds none, is kept.
\<close>

fun Node_copy :: "node \<Rightarrow> fragment \<Rightarrow> node" where
  "Node_copy (Node t a ms c) c' = Node t a ms c'"
| "Node_copy (TextNode ms s) c' = TextNode ms s"

text \<open>Modelled from the spec: Node.mark, the same node with another mark set.\<close>

fun Node_mark :: "node \<Rightarrow> Mark list \<Rightarrow> node" where
  "Node_mark (TextNode ms s) ms' = TextNode ms' s"
| "Node_mark (Node t a ms c) ms' = Node t a ms' c"

text \<open>
  \<open>String.prototype.slice\<close>: a negative index counts from the end, both indices are
  clamped to the string, and an empty or inverted range gives the empty string.
\<close>

definition js_slice :: "string \<Rightarrow> int \<Rightarrow> int \<Rightarrow> string" where
  "js_slice s from to =
     (let len = int (length s);
          f = (if from < 0 then max (len + from) 0 else min from len);
          t = (if to < 0 then max (len + to) 0 else min to len)
      in if f < t then take (nat (t - f)) (drop (nat f) s) else [])"

section \<open>Fragment (src/model/fragment.ts)\<close>

text \<open>
  The constructor: \<open>this.size = size || 0\<close>, and the sizes of the children are summed
  when no size is passed.
\<close>

definition Fragment_new :: "node list \<Rightarrow> int option \<Rightarrow> fragment" where
  "Fragment_new cs given =
     (case given of
        None \<Rightarrow> Fragment cs (sum_list (map nodeSize cs))
      | Some sz \<Rightarrow> Fragment cs sz)"

definition firstChild :: "fragment \<Rightarrow> node option" where
  "firstChild f = (case content f of [] \<Rightarrow> None | n # ns \<Rightarrow> Some n)"

definition lastChild :: "fragment \<Rightarrow> node option" where
  "lastChild f = (if content f = [] then None else Some (last (content f)))"

definition childCount :: "fragment \<Rightarrow> int" where
  "childCount f = int (length (content f))"

text \<open>\<open>child\<close> raises a RangeError when nothing is found at the index.\<close>

definition Fragment_child :: "fragment \<Rightarrow> int \<Rightarrow> error + node" where
  "Fragment_child f i =
     (if 0 \<le> i \<and> i < int (length (content f)) then Inr (content f ! nat i)
      else Inl RangeError)"

definition maybeChild :: "fragment \<Rightarrow> int \<Rightarrow> node option" where
  "maybeChild f i =
     (if 0 \<le> i \<and> i < int (length (content f)) then Some (content f ! nat i) else None)"

text \<open>
  \<open>append\<close>. Reading \<open>last.isText\<close> of a missing last child, or the type of a missing
  first child inside \<open>sameMarkup\<close>, is a TypeError.
\<close>

definition Fragment_append :: "fragment \<Rightarrow> fragment \<Rightarrow> error + fragment" where
  "Fragment_append this other =
     (if fsize other = 0 then Inr this
      else if fsize this = 0 then Inr other
      else case lastChild this of
        None \<Rightarrow> Inl TypeError
      | Some lst \<Rightarrow>
          if isText lst then
            (case firstChild other of
               None \<Rightarrow> Inl TypeError
             | Some first \<Rightarrow>
                 if sameMarkup lst first then
                   Inr (Fragment_new
                         (butlast (content this) @ [withText lst (node_text lst @ node_text first)]
                            @ drop 1 (content other))
                         (Some (fsize this + fsize other)))
                 else
                   Inr (Fragment_new (content this @ content other)
                         (Some (fsize this + fsize other))))
          else
            Inr (Fragment_new (content this @ content other)
                  (Some (fsize this + fsize other))))"

text \<open>
  \<open>cut\<close>, with the methods \<open>Node.cut\<close> and \<open>TextNode.cut\<close> it calls on a child that
  is only partly covered (modelled from the spec: a text node is sliced by character
  offset, another node is copied around the cut of its content, and a cut that covers
  the whole node returns the node). The loop reads \<open>this.content[i]\<close> while
  \<open>pos < to\<close>; past the last child that is a TypeError.
\<close>

fun Node_cut :: "node \<Rightarrow> int \<Rightarrow> int option \<Rightarrow> error + node"
and Fragment_cut :: "fragment \<Rightarrow> int \<Rightarrow> int option \<Rightarrow> error + fragment"
and cut_loop :: "node list \<Rightarrow> int \<Rightarrow> int \<Rightarrow> int \<Rightarrow> error + node list"
where
  "Node_cut (TextNode ms s) from to =
     (let to' = (case to of None \<Rightarrow> int (length s) | Some t \<Rightarrow> t)
      in if from = 0 \<and> to' = int (length s) then Inr (TextNode ms s)
         else Inr (withText (TextNode ms s) (js_slice s from to')))"
| "Node_cut (Node t a ms c) from to =
     (if from = 0 \<and> to = Some (fsize c) then Inr (Node t a ms c)
      else case Fragment_cut c from to of
             Inl e \<Rightarrow> Inl e
           | Inr c' \<Rightarrow> Inr (Node_copy (Node t a ms c) c'))"
| "Fragment_cut (Fragment cs sz) from to =
     (let to' = (case to of None \<Rightarrow> sz | Some t \<Rightarrow> t)
      in if from = 0 \<and> to' = sz then Inr (Fragment cs sz)
         else if to' > from then
           (case cut_loop cs 0 from to' of
              Inl e \<Rightarrow> Inl e
            | Inr r \<Rightarrow> Inr (Fragment_new r (Some (sum_list (map nodeSize r)))))
         else Inr (Fragment_new [] (Some 0)))"
| "cut_loop [] pos from to = (if pos < to then Inl TypeError else Inr [])"
| "cut_loop (child # rest) pos from to =
     (if pos < to then
        (let end = pos + nodeSize child in
         if end > from then
           (case (if pos < from \<or> end > to then
                    (if isText child then
                       Node_cut child (max 0 (from - pos))
                         (Some (min (int (length (node_text child))) (to - pos)))
                     else
                       Node_cut child (max 0 (from - pos - 1))
                         (Some (min (fsize (node_content child)) (to - pos - 1))))
                  else Inr child) of
              Inl e \<Rightarrow> Inl e
            | Inr child' \<Rightarrow>
                (case cut_loop rest end from to of
                   Inl e \<Rightarrow> Inl e
                 | Inr r \<Rightarrow> Inr (child' # r)))
         else cut_loop rest end from to)
      else Inr [])"

text \<open>
  Modelled from the spec: Node.eq and TextNode.eq (same markup and equal content, or equal
  text). \<open>Fragment.eq\<close> is the one of src/model/fragment.ts: the same number of children,
  pairwise equal.
\<close>

fun Node_eq :: "node \<Rightarrow> node \<Rightarrow> bool"
and Fragment_eq :: "fragment \<Rightarrow> fragment \<Rightarrow> bool"
and eq_loop :: "node list \<Rightarrow> node list \<Rightarrow> bool"
where
  "Node_eq (TextNode ms s) other = (sameMarkup (TextNode ms s) other \<and> s = node_text other)"
| "Node_eq (Node t a ms c) other =
     (sameMarkup (Node t a ms c) other \<and> Fragment_eq c (node_content other))"
| "Fragment_eq (Fragment cs sz) other =
     (length cs = length (content other) \<and> eq_loop cs (content other))"
| "eq_loop [] ys = True"
| "eq_loop (x # xs) [] = True"
| "eq_loop (x # xs) (y # ys) = (if \<not> Node_eq x y then False else eq_loop xs ys)"

text \<open>
  \<open>Fragment.fromArray\<close>. The loop compares each node with its predecessor in the
  array, and keeps the joined array only once a first pair has been merged.
\<close>

fun fromArray_loop ::
  "node list \<Rightarrow> node \<Rightarrow> node list \<Rightarrow> node list option \<Rightarrow> node list option" where
  "fromArray_loop seen prev [] joined = joined"
| "fromArray_loop seen prev (n # rest) joined =
     (if isText n \<and> sameMarkup prev n then
        (let j = (case joined of None \<Rightarrow> seen | Some j' \<Rightarrow> j')
         in fromArray_loop (seen @ [n]) n rest
              (Some (butlast j @ [withText n (node_text (last j) @ node_text n)])))
      else
        fromArray_loop (seen @ [n]) n rest
          (case joined of None \<Rightarrow> None | Some j' \<Rightarrow> Some (j' @ [n])))"

definition Fragment_fromArray :: "node list \<Rightarrow> fragment" where
  "Fragment_fromArray array =
     (case array of
        [] \<Rightarrow> Fragment_empty
      | n # rest \<Rightarrow>
          (case fromArray_loop [n] n rest None of
             None \<Rightarrow> Fragment_new array (Some (sum_list (map nodeSize array)))
           | Some joined \<Rightarrow> Fragment_new joined (Some (sum_list (map nodeSize array)))))"

text \<open>
  \<open>findIndex\<close>. The shared result object of \<open>retIndex\<close> is read by every caller
  before the next call, so a pair is returned. \<open>this.child(i)\<close> past the last child
  raises a RangeError.
\<close>

fun findIndex_loop ::
  "node list \<Rightarrow> int \<Rightarrow> int \<Rightarrow> int \<Rightarrow> int \<Rightarrow> error + (int \<times> int)" where
  "findIndex_loop [] i curPos pos round = Inl RangeError"
| "findIndex_loop (cur # rest) i curPos pos round =
     (let end = curPos + nodeSize cur in
      if end \<ge> pos then
        (if end = pos \<or> round > 0 then Inr (i + 1, end) else Inr (i, curPos))
      else findIndex_loop rest (i + 1) end pos round)"

definition Fragment_findIndex :: "fragment \<Rightarrow> int \<Rightarrow> int \<Rightarrow> error + (int \<times> int)" where
  "Fragment_findIndex f pos round =
     (if pos = 0 then Inr (0, pos)
      else if pos = fsize f then Inr (int (length (content f)), pos)
      else if pos > fsize f \<or> pos < 0 then Inl RangeError
      else findIndex_loop (content f) 0 0 pos round)"

text \<open>
  \<open>replaceChild\<close>. Reading \<open>nodeSize\<close> of a missing current child is a TypeError.
\<close>

definition replaceChild :: "fragment \<Rightarrow> int \<Rightarrow> node \<Rightarrow> error + fragment" where
  "replaceChild f index n =
     (case maybeChild f index of
        None \<Rightarrow> Inl TypeError
      | Some current \<Rightarrow>
          if current = n then Inr f
          else Inr (Fragment_new ((content f)[nat index := n])
                     (Some (fsize f + nodeSize n - nodeSize current))))"

text \<open>\<open>Fragment.from\<close> of a single node.\<close>

definition Fragment_from_node :: "node \<Rightarrow> fragment" where
  "Fragment_from_node n = Fragment_new [n] (Some (nodeSize n))"

section \<open>JSON values\<close>

datatype json =
    JNull
  | JBool bool
  | JNum int
  | JStr string
  | JArr "json list"
  | JObj "(string \<times> json) list"

text \<open>
  Reading a property: a missing property, and any property of a value that is not an
  object, is \<open>undefined\<close> (\<open>None\<close>). Truthiness is JavaScript's.
\<close>

fun json_get :: "json \<Rightarrow> string \<Rightarrow> json option" where
  "json_get (JObj kvs) k = map_of kvs k"
| "json_get j k = None"

fun js_truthy :: "json option \<Rightarrow> bool" where
  "js_truthy None = False"
| "js_truthy (Some JNull) = False"
| "js_truthy (Some (JBool b)) = b"
| "js_truthy (Some (JNum n)) = (n \<noteq> 0)"
| "js_truthy (Some (JStr s)) = (s \<noteq> [])"
| "js_truthy (Some (JArr xs)) = True"
| "js_truthy (Some (JObj kvs)) = True"

fun is_number :: "json \<Rightarrow> bool" where
  "is_number (JNum n) = True"
| "is_number j = False"

text \<open>
  Modelled from the spec: the schema (schema.ts and content.ts are not under src/). The
  core calls into it for content-model validation, content compatibility of two node
  types, mark compatibility and the deserialisation of a node; none of these is defined
  by the code under src/, so they are the fields of a record that the callers receive.
\<close>

record Schema =
  validContent :: "NodeType \<Rightarrow> fragment \<Rightarrow> bool"
  compatibleContent :: "NodeType \<Rightarrow> NodeType \<Rightarrow> bool"
  allowsMarkType :: "NodeType \<Rightarrow> MarkType \<Rightarrow> bool"
  nodeFromJSON :: "json \<Rightarrow> error + node"

text \<open>\<open>Array.prototype.map\<close> with a function that may raise: the first error wins.\<close>

fun map_result :: "('a \<Rightarrow> error + 'b) \<Rightarrow> 'a list \<Rightarrow> error + 'b list" where
  "map_result f [] = Inr []"
| "map_result f (x # xs) =
     (case f x of
        Inl e \<Rightarrow> Inl e
      | Inr y \<Rightarrow> (case map_result f xs of Inl e \<Rightarrow> Inl e | Inr ys \<Rightarrow> Inr (y # ys)))"

text \<open>
  \<open>Fragment.toJSON\<close> and \<open>Fragment.fromJSON\<close>. \<open>Node.toJSON\<close> is not under src/ and is
  a parameter.
\<close>

definition Fragment_toJSON :: "(node \<Rightarrow> json) \<Rightarrow> fragment \<Rightarrow> json" where
  "Fragment_toJSON node_toJSON f =
     (if content f \<noteq> [] then JArr (map node_toJSON (content f)) else JNull)"

definition Fragment_fromJSON :: "'a Schema_scheme \<Rightarrow> json option \<Rightarrow> error + fragment" where
  "Fragment_fromJSON schema v =
     (if \<not> js_truthy v then Inr Fragment_empty
      else case v of
        Some (JArr xs) \<Rightarrow>
          (case map_result (nodeFromJSON schema) xs of
             Inl e \<Rightarrow> Inl e
           | Inr ns \<Rightarrow> Inr (Fragment_new ns None))
      | _ \<Rightarrow> Inl RangeError)"

section \<open>Slice (src/model/replace.ts)\<close>

record Slice =
  slice_content :: fragment
  openStart :: int
  openEnd :: int

definition Slice_empty :: Slice where
  "Slice_empty = \<lparr>slice_content = Fragment_empty, openStart = 0, openEnd = 0\<rparr>"

definition Slice_size :: "Slice \<Rightarrow> int" where
  "Slice_size s = fsize (slice_content s) - openStart s - openEnd s"

definition Slice_eq :: "Slice \<Rightarrow> Slice \<Rightarrow> bool" where
  "Slice_eq s other =
     (Fragment_eq (slice_content s) (slice_content other)
      \<and> openStart s = openStart other \<and> openEnd s = openEnd other)"

definition Slice_toJSON :: "(node \<Rightarrow> json) \<Rightarrow> Slice \<Rightarrow> json" where
  "Slice_toJSON node_toJSON s =
     (if fsize (slice_content s) = 0 then JNull
      else JObj ([(''content'', Fragment_toJSON node_toJSON (slice_content s))]
                 @ (if openStart s > 0 then [(''openStart'', JNum (openStart s))] else [])
                 @ (if openEnd s > 0 then [(''openEnd'', JNum (openEnd s))] else [])))"

text \<open>\<open>json.openStart || 0\<close>: the property when it is truthy, the number 0 otherwise.\<close>

definition or_zero :: "json option \<Rightarrow> json" where
  "or_zero v = (if js_truthy v then the v else JNum 0)"

fun num_value :: "json \<Rightarrow> int" where
  "num_value (JNum n) = n"
| "num_value j = 0"

definition Slice_fromJSON :: "'a Schema_scheme \<Rightarrow> json \<Rightarrow> error + Slice" where
  "Slice_fromJSON schema j =
     (if \<not> js_truthy (Some j) then Inr Slice_empty
      else
        (let os = or_zero (json_get j ''openStart'');
             oe = or_zero (json_get j ''openEnd'')
         in if \<not> is_number os \<or> \<not> is_number oe then Inl RangeError
            else case Fragment_fromJSON schema (json_get j ''content'') of
                   Inl e \<Rightarrow> Inl e
                 | Inr c \<Rightarrow>
                     Inr \<lparr>slice_content = c, openStart = num_value os,
                          openEnd = num_value oe\<rparr>))"

text \<open>
  \<open>Slice.maxOpen\<close>. Each loop walks down from the first (last) child while the node is
  not a leaf and, unless \<open>openIsolating\<close> is set, not isolating. The parameter
  defaults to \<open>true\<close>.
\<close>

function openStart_loop :: "bool \<Rightarrow> node option \<Rightarrow> int" where
  "openStart_loop openIsolating None = 0"
| "openStart_loop openIsolating (Some n) =
     (if \<not> node_isLeaf n \<and> (openIsolating \<or> \<not> node_isolating n)
      then 1 + openStart_loop openIsolating (firstChild (node_content n))
      else 0)"
  by pat_completeness auto
termination
proof (relation "measure (\<lambda>(oi, n). case n of None \<Rightarrow> 0 | Some m \<Rightarrow> size m)")
  show "wf (measure (\<lambda>(oi, n). case n of None \<Rightarrow> 0 | Some m \<Rightarrow> size m))"
    by simp
next
  fix openIsolating :: bool and n :: node
  assume open_node: "\<not> node_isLeaf n \<and> (openIsolating \<or> \<not> node_isolating n)"
  show "((openIsolating, firstChild (node_content n)), (openIsolating, Some n))
          \<in> measure (\<lambda>(oi, n). case n of None \<Rightarrow> 0 | Some m \<Rightarrow> size m)"
  proof (cases n)
    case (TextNode ms s)
    then show ?thesis using open_node by simp
  next
    case (Node t a ms c)
    then show ?thesis
      by (cases c; cases "content c") (auto simp: firstChild_def)
  qed
qed

function openEnd_loop :: "bool \<Rightarrow> node option \<Rightarrow> int" where
  "openEnd_loop openIsolating None = 0"
| "openEnd_loop openIsolating (Some n) =
     (if \<not> node_isLeaf n \<and> (openIsolating \<or> \<not> node_isolating n)
      then 1 + openEnd_loop openIsolating (lastChild (node_content n))
      else 0)"
  by pat_completeness auto
termination
proof (relation "measure (\<lambda>(oi, n). case n of None \<Rightarrow> 0 | Some m \<Rightarrow> size m)")
  show "wf (measure (\<lambda>(oi, n). case n of None \<Rightarrow> 0 | Some m \<Rightarrow> size m))"
    by simp
next
  fix openIsolating :: bool and n :: node
  assume open_node: "\<not> node_isLeaf n \<and> (openIsolating \<or> \<not> node_isolating n)"
  have last_less: "cs \<noteq> [] \<Longrightarrow> size (last cs) < Suc (size_list size cs)"
    for cs :: "node list"
    by (induction cs) auto
  show "((openIsolating, lastChild (node_content n)), (openIsolating, Some n))
          \<in> measure (\<lambda>(oi, n). case n of None \<Rightarrow> 0 | Some m \<Rightarrow> size m)"
  proof (cases n)
    case (TextNode ms s)
    then show ?thesis using open_node by simp
  next
    case (Node t a ms c)
    then show ?thesis
      using last_less[of "content c"] by (cases c) (auto simp: lastChild_def)
  qed
qed

definition maxOpen :: "fragment \<Rightarrow> bool option \<Rightarrow> Slice" where
  "maxOpen f openIsolating =
     (let oi = (case openIsolating of None \<Rightarrow> True | Some b \<Rightarrow> b)
      in \<lparr>slice_content = f,
          openStart = openStart_loop oi (firstChild f),
          openEnd = openEnd_loop oi (lastChild f)\<rparr>)"

section \<open>Resolved positions\<close>

text \<open>
  Modelled from the spec: ResolvedPos and Node.resolve (resolvedpos.ts is not under
  src/). A resolved position is the position, the ancestor chain with, for every depth,
  the ancestor node, the index into it and the offset of that child in the document, and
  the offset into the innermost parent. An entry that does not exist reads as
  \<open>undefined\<close> (\<open>None\<close>); a negative depth counts from the position's own depth.
\<close>

record ResolvedPos =
  pos :: int
  path :: "(node \<times> int \<times> int) list"
  parentOffset :: int

definition rp_depth :: "ResolvedPos \<Rightarrow> int" where
  "rp_depth r = int (length (path r)) - 1"

definition resolveDepth :: "ResolvedPos \<Rightarrow> int \<Rightarrow> int" where
  "resolveDepth r val = (if val < 0 then rp_depth r + val else val)"

definition rp_entry :: "ResolvedPos \<Rightarrow> int \<Rightarrow> (node \<times> int \<times> int) option" where
  "rp_entry r d =
     (let d' = resolveDepth r d
      in if 0 \<le> d' \<and> d' < int (length (path r)) then Some (path r ! nat d') else None)"

definition rp_node :: "ResolvedPos \<Rightarrow> int \<Rightarrow> node option" where
  "rp_node r d = map_option fst (rp_entry r d)"

definition rp_index :: "ResolvedPos \<Rightarrow> int \<Rightarrow> int option" where
  "rp_index r d = map_option (\<lambda>e. fst (snd e)) (rp_entry r d)"

definition rp_parent :: "ResolvedPos \<Rightarrow> node option" where
  "rp_parent r = rp_node r (rp_depth r)"

text \<open>
  \<open>textOffset\<close> is the position minus the last offset of the path. It is only tested
  for being non-zero; with an empty path the JavaScript value is \<open>NaN\<close>, which tests
  like zero.
\<close>

definition textOffset :: "ResolvedPos \<Rightarrow> int" where
  "textOffset r = (if path r = [] then 0 else pos r - snd (snd (last (path r))))"

definition rp_start :: "ResolvedPos \<Rightarrow> int \<Rightarrow> int option" where
  "rp_start r depth =
     (let d = resolveDepth r depth
      in if d = 0 then Some 0
         else if 1 \<le> d \<and> d - 1 < int (length (path r))
              then Some (snd (snd (path r ! nat (d - 1))) + 1)
              else None)"

definition rp_end :: "ResolvedPos \<Rightarrow> int \<Rightarrow> int option" where
  "rp_end r depth =
     (case (rp_start r depth, rp_node r depth) of
        (Some s, Some n) \<Rightarrow> Some (s + fsize (node_content n))
      | _ \<Rightarrow> None)"

fun sharedDepth_loop :: "ResolvedPos \<Rightarrow> nat \<Rightarrow> int \<Rightarrow> int" where
  "sharedDepth_loop r 0 p = 0"
| "sharedDepth_loop r (Suc d) p =
     (case (rp_start r (int (Suc d)), rp_end r (int (Suc d))) of
        (Some s, Some e) \<Rightarrow>
          if s \<le> p \<and> e \<ge> p then int (Suc d) else sharedDepth_loop r d p
      | _ \<Rightarrow> sharedDepth_loop r d p)"

definition sharedDepth :: "ResolvedPos \<Rightarrow> int \<Rightarrow> int" where
  "sharedDepth r p = sharedDepth_loop r (nat (rp_depth r)) p"

definition nodeAfter :: "ResolvedPos \<Rightarrow> error + node option" where
  "nodeAfter r =
     (case rp_entry r (rp_depth r) of
        None \<Rightarrow> Inl TypeError
      | Some (parent, index, off) \<Rightarrow>
          if index = childCount (node_content parent) then Inr None
          else case Fragment_child (node_content parent) index of
                 Inl e \<Rightarrow> Inl e
               | Inr child \<Rightarrow>
                   if textOffset r \<noteq> 0 then
                     (case Node_cut child (textOffset r) None of
                        Inl e \<Rightarrow> Inl e
                      | Inr c \<Rightarrow> Inr (Some c))
                   else Inr (Some child))"

definition nodeBefore :: "ResolvedPos \<Rightarrow> error + node option" where
  "nodeBefore r =
     (case rp_entry r (rp_depth r) of
        None \<Rightarrow> Inl TypeError
      | Some (parent, index, off) \<Rightarrow>
          if textOffset r \<noteq> 0 then
            (case Fragment_child (node_content parent) index of
               Inl e \<Rightarrow> Inl e
             | Inr child \<Rightarrow>
                 (case Node_cut child 0 (Some (textOffset r)) of
                    Inl e \<Rightarrow> Inl e
                  | Inr c \<Rightarrow> Inr (Some c)))
          else if index = 0 then Inr None
          else (case Fragment_child (node_content parent) (index - 1) of
                  Inl e \<Rightarrow> Inl e
                | Inr child \<Rightarrow> Inr (Some child)))"

text \<open>
  \<open>resolve\<close> walks down from the document: at every level it finds the child that
  holds the remaining offset, records the node, the index and the offset of that child,
  and stops when nothing remains or the child is a text node.
\<close>

function resolve_loop ::
  "node \<Rightarrow> int \<Rightarrow> int \<Rightarrow> error + ((node \<times> int \<times> int) list \<times> int)" where
  "resolve_loop n start parentOff =
     (case Fragment_findIndex (node_content n) parentOff (- 1) of
        Inl e \<Rightarrow> Inl e
      | Inr (index, offset) \<Rightarrow>
          if parentOff - offset = 0 then Inr ([(n, index, start + offset)], parentOff)
          else case Fragment_child (node_content n) index of
                 Inl e \<Rightarrow> Inl e
               | Inr child \<Rightarrow>
                   if isText child then Inr ([(n, index, start + offset)], parentOff)
                   else (case resolve_loop child (start + offset + 1)
                                (parentOff - offset - 1) of
                           Inl e \<Rightarrow> Inl e
                         | Inr (p, po) \<Rightarrow> Inr ((n, index, start + offset) # p, po)))"
  by pat_completeness auto
termination
proof (relation "measure (\<lambda>(n, start, parentOff). size n)")
  show "wf (measure (\<lambda>(n, start, parentOff). size n))" by simp
next
  fix n :: node and start parentOff :: int and x :: "int \<times> int" and index offset :: int
    and child :: node
  assume child: "Fragment_child (node_content n) index = Inr child"
  have mem_less: "c \<in> set cs \<Longrightarrow> size c < Suc (size_list size cs)"
    for c :: node and cs
    by (induction cs) auto
  have "child \<in> set (content (node_content n))"
    using child by (auto simp: Fragment_child_def split: if_splits)
  then have "size child < size n"
    using mem_less[of child "content (node_content n)"]
    by (cases n; cases "node_content n") (auto simp: Fragment_empty_def)
  then show "((child, start + offset + 1, parentOff - offset - 1), (n, start, parentOff))
               \<in> measure (\<lambda>(n, start, parentOff). size n)"
    by simp
qed

declare resolve_loop.simps [simp del]

definition Node_resolve :: "node \<Rightarrow> int \<Rightarrow> error + ResolvedPos" where
  "Node_resolve doc p =
     (if \<not> (p \<ge> 0 \<and> p \<le> fsize (node_content doc)) then Inl RangeError
      else case resolve_loop doc 0 p of
             Inl e \<Rightarrow> Inl e
           | Inr (pth, po) \<Rightarrow> Inr \<lparr>pos = p, path = pth, parentOffset = po\<rparr>)"

section \<open>The replace algorithm (src/model/replace.ts)\<close>

text \<open>
  \<open>new ReplaceError(message)\<close> runs a constructor that builds an Error and does not
  return it, so the object thrown is the fresh instance of \<open>ReplaceError.prototype\<close>:
  an error of kind \<open>ReplaceError\<close>, without a message of its own.
\<close>

definition checkJoin :: "'a Schema_scheme \<Rightarrow> node option \<Rightarrow> node option \<Rightarrow> error + unit" where
  "checkJoin schema main sub =
     (case sub of
        None \<Rightarrow> Inl TypeError
      | Some s \<Rightarrow>
          (case main of
             None \<Rightarrow> Inl TypeError
           | Some m \<Rightarrow>
               if \<not> compatibleContent schema (node_type s) (node_type m)
               then Inl ReplaceError else Inr ()))"

definition joinable ::
  "'a Schema_scheme \<Rightarrow> ResolvedPos \<Rightarrow> ResolvedPos \<Rightarrow> int \<Rightarrow> error + node" where
  "joinable schema rbefore rafter depth =
     (case checkJoin schema (rp_node rbefore depth) (rp_node rafter depth) of
        Inl e \<Rightarrow> Inl e
      | Inr u \<Rightarrow> (case rp_node rbefore depth of None \<Rightarrow> Inl TypeError | Some n \<Rightarrow> Inr n))"

definition addNode :: "node \<Rightarrow> node list \<Rightarrow> node list" where
  "addNode child target =
     (if target \<noteq> [] \<and> isText child \<and> sameMarkup child (last target)
      then butlast target @ [withText child (node_text (last target) @ node_text child)]
      else target @ [child])"

function addRange_loop :: "node \<Rightarrow> int \<Rightarrow> int \<Rightarrow> node list \<Rightarrow> error + node list" where
  "addRange_loop n i endIndex target =
     (if i < endIndex then
        (case Fragment_child (node_content n) i of
           Inl e \<Rightarrow> Inl e
         | Inr c \<Rightarrow> addRange_loop n (i + 1) endIndex (addNode c target))
      else Inr target)"
  by pat_completeness auto
termination
  by (relation "measure (\<lambda>(n, i, endIndex, target). nat (endIndex - i))") auto

declare addRange_loop.simps [simp del]

text \<open>
  \<open>addRange\<close>. Either position may be \<open>null\<close>. An index read past the path of a
  position is \<open>undefined\<close>, and a loop bounded by it does not run; \<open>addNode\<close> of a
  missing \<open>nodeAfter\<close> or \<open>nodeBefore\<close> is a TypeError.
\<close>

definition addRange ::
  "ResolvedPos option \<Rightarrow> ResolvedPos option \<Rightarrow> int \<Rightarrow> node list \<Rightarrow> error + node list" where
  "addRange start end depth target =
     (case (case end of Some e \<Rightarrow> Some e | None \<Rightarrow> start) of
        None \<Rightarrow> Inl TypeError
      | Some r \<Rightarrow>
          (case (case end of
                   Some e \<Rightarrow> Inr (rp_index e depth)
                 | None \<Rightarrow>
                     (case rp_node r depth of
                        None \<Rightarrow> Inl TypeError
                      | Some n \<Rightarrow> Inr (Some (childCount (node_content n))))) of
             Inl e \<Rightarrow> Inl e
           | Inr endIndex \<Rightarrow>
               (case (case start of
                        None \<Rightarrow> Inr (Some 0, target)
                      | Some s \<Rightarrow>
                          if rp_depth s > depth then
                            Inr (map_option (\<lambda>i. i + 1) (rp_index s depth), target)
                          else if textOffset s \<noteq> 0 then
                            (case nodeAfter s of
                               Inl e \<Rightarrow> Inl e
                             | Inr None \<Rightarrow> Inl TypeError
                             | Inr (Some na) \<Rightarrow>
                                 Inr (map_option (\<lambda>i. i + 1) (rp_index s depth),
                                      addNode na target))
                          else Inr (rp_index s depth, target)) of
                  Inl e \<Rightarrow> Inl e
                | Inr (startIndex, target1) \<Rightarrow>
                    (case (case (startIndex, endIndex) of
                             (Some si, Some ei) \<Rightarrow>
                               (case rp_node r depth of
                                  Some n \<Rightarrow> addRange_loop n si ei target1
                                | None \<Rightarrow> if si < ei then Inl TypeError else Inr target1)
                           | _ \<Rightarrow> Inr target1) of
                       Inl e \<Rightarrow> Inl e
                     | Inr target2 \<Rightarrow>
                         (case end of
                            None \<Rightarrow> Inr target2
                          | Some e \<Rightarrow>
                              if rp_depth e = depth \<and> textOffset e \<noteq> 0 then
                                (case nodeBefore e of
                                   Inl er \<Rightarrow> Inl er
                                 | Inr None \<Rightarrow> Inl TypeError
                                 | Inr (Some nb) \<Rightarrow> Inr (addNode nb target2))
                              else Inr target2)))))"

definition close :: "'a Schema_scheme \<Rightarrow> node \<Rightarrow> fragment \<Rightarrow> error + node" where
  "close schema n c =
     (if \<not> validContent schema (node_type n) c then Inl ReplaceError
      else Inr (Node_copy n c))"

function replaceTwoWay ::
  "'a Schema_scheme \<Rightarrow> ResolvedPos \<Rightarrow> ResolvedPos \<Rightarrow> int \<Rightarrow> error + fragment" where
  "replaceTwoWay schema from to depth =
     (case addRange None (Some from) depth [] of
        Inl e \<Rightarrow> Inl e
      | Inr content1 \<Rightarrow>
          (case (if rp_depth from > depth then
                   (case joinable schema from to (depth + 1) of
                      Inl e \<Rightarrow> Inl e
                    | Inr type \<Rightarrow>
                        (case replaceTwoWay schema from to (depth + 1) of
                           Inl e \<Rightarrow> Inl e
                         | Inr inner \<Rightarrow>
                             (case close schema type inner of
                                Inl e \<Rightarrow> Inl e
                              | Inr closed \<Rightarrow> Inr (addNode closed content1))))
                 else Inr content1) of
             Inl e \<Rightarrow> Inl e
           | Inr content2 \<Rightarrow>
               (case addRange (Some to) None depth content2 of
                  Inl e \<Rightarrow> Inl e
                | Inr content3 \<Rightarrow> Inr (Fragment_new content3 None))))"
  by pat_completeness auto
termination
  by (relation "measure (\<lambda>(schema, from, to, depth). nat (rp_depth from - depth))") auto

declare replaceTwoWay.simps [simp del]

text \<open>
  \<open>replaceThreeWay\<close>. \<open>openStart\<close> and \<open>openEnd\<close> are \<open>false\<close> (\<open>None\<close>) or the node
  that \<open>joinable\<close> returns.
\<close>

function replaceThreeWay ::
  "'a Schema_scheme \<Rightarrow> ResolvedPos \<Rightarrow> ResolvedPos \<Rightarrow> ResolvedPos \<Rightarrow> ResolvedPos \<Rightarrow> int
     \<Rightarrow> error + fragment" where
  "replaceThreeWay schema from start end to depth =
     (case (if rp_depth from > depth
            then map_sum id Some (joinable schema from start (depth + 1))
            else Inr None) of
        Inl e \<Rightarrow> Inl e
      | Inr openStart' \<Rightarrow>
     (case (if rp_depth to > depth
            then map_sum id Some (joinable schema end to (depth + 1))
            else Inr None) of
        Inl e \<Rightarrow> Inl e
      | Inr openEnd' \<Rightarrow>
     (case addRange None (Some from) depth [] of
        Inl e \<Rightarrow> Inl e
      | Inr content1 \<Rightarrow>
     (case (if openStart' \<noteq> None \<and> openEnd' \<noteq> None
               \<and> rp_index start depth = rp_index end depth then
              (case checkJoin schema openStart' openEnd' of
                 Inl e \<Rightarrow> Inl e
               | Inr u \<Rightarrow>
                   (case replaceThreeWay schema from start end to (depth + 1) of
                      Inl e \<Rightarrow> Inl e
                    | Inr inner \<Rightarrow>
                        (case close schema (the openStart') inner of
                           Inl e \<Rightarrow> Inl e
                         | Inr closed \<Rightarrow> Inr (addNode closed content1))))
            else
              (case (case openStart' of
                       None \<Rightarrow> Inr content1
                     | Some os \<Rightarrow>
                         (case replaceTwoWay schema from start (depth + 1) of
                            Inl e \<Rightarrow> Inl e
                          | Inr inner \<Rightarrow>
                              (case close schema os inner of
                                 Inl e \<Rightarrow> Inl e
                               | Inr closed \<Rightarrow> Inr (addNode closed content1)))) of
                 Inl e \<Rightarrow> Inl e
               | Inr content2 \<Rightarrow>
                   (case addRange (Some start) (Some end) depth content2 of
                      Inl e \<Rightarrow> Inl e
                    | Inr content3 \<Rightarrow>
                        (case openEnd' of
                           None \<Rightarrow> Inr content3
                         | Some oe \<Rightarrow>
                             (case replaceTwoWay schema end to (depth + 1) of
                                Inl e \<Rightarrow> Inl e
                              | Inr inner \<Rightarrow>
                                  (case close schema oe inner of
                                     Inl e \<Rightarrow> Inl e
                                   | Inr closed \<Rightarrow> Inr (addNode closed content3))))))) of
        Inl e \<Rightarrow> Inl e
      | Inr content4 \<Rightarrow>
     (case addRange (Some to) None depth content4 of
        Inl e \<Rightarrow> Inl e
      | Inr content5 \<Rightarrow> Inr (Fragment_new content5 None))))))"
  by pat_completeness auto
termination
  by (relation "measure (\<lambda>(schema, from, start, end, to, depth). nat (rp_depth from - depth))")
     (auto split: if_splits)

declare replaceThreeWay.simps [simp del]

function wrap_loop :: "ResolvedPos \<Rightarrow> int \<Rightarrow> node \<Rightarrow> error + node" where
  "wrap_loop along i n =
     (if i \<ge> 0 then
        (case rp_node along i of
           None \<Rightarrow> Inl TypeError
         | Some a \<Rightarrow> wrap_loop along (i - 1) (Node_copy a (Fragment_from_node n)))
      else Inr n)"
  by pat_completeness auto
termination
  by (relation "measure (\<lambda>(along, i, n). nat (i + 1))") auto

declare wrap_loop.simps [simp del]

definition prepareSliceForReplace ::
  "Slice \<Rightarrow> ResolvedPos \<Rightarrow> error + (ResolvedPos \<times> ResolvedPos)" where
  "prepareSliceForReplace slice along =
     (let extra = rp_depth along - openStart slice
      in case rp_node along extra of
           None \<Rightarrow> Inl TypeError
         | Some parent \<Rightarrow>
             (case wrap_loop along (extra - 1) (Node_copy parent (slice_content slice)) of
                Inl e \<Rightarrow> Inl e
              | Inr n \<Rightarrow>
                  (case Node_resolve n (openStart slice + extra) of
                     Inl e \<Rightarrow> Inl e
                   | Inr start \<Rightarrow>
                       (case Node_resolve n
                               (fsize (node_content n) - openEnd slice - extra) of
                          Inl e \<Rightarrow> Inl e
                        | Inr end \<Rightarrow> Inr (start, end)))))"

function replaceOuter ::
  "'a Schema_scheme \<Rightarrow> ResolvedPos \<Rightarrow> ResolvedPos \<Rightarrow> Slice \<Rightarrow> int \<Rightarrow> error + node" where
  "replaceOuter schema from to slice depth =
     (if rp_index from depth = rp_index to depth
         \<and> depth < rp_depth from - openStart slice then
        (case replaceOuter schema from to slice (depth + 1) of
           Inl e \<Rightarrow> Inl e
         | Inr inner \<Rightarrow>
             (case rp_entry from depth of
                None \<Rightarrow> Inl TypeError
              | Some (n, index, off) \<Rightarrow>
                  (case replaceChild (node_content n) index inner of
                     Inl e \<Rightarrow> Inl e
                   | Inr c \<Rightarrow> Inr (Node_copy n c))))
      else if fsize (slice_content slice) = 0 then
        (case replaceTwoWay schema from to depth of
           Inl e \<Rightarrow> Inl e
         | Inr c \<Rightarrow>
             (case rp_node from depth of
                None \<Rightarrow> Inl TypeError
              | Some n \<Rightarrow> close schema n c))
      else if openStart slice = 0 \<and> openEnd slice = 0
              \<and> rp_depth from = depth \<and> rp_depth to = depth then
        (case rp_parent from of
           None \<Rightarrow> Inl TypeError
         | Some parent \<Rightarrow>
             (case Fragment_cut (node_content parent) 0 (Some (parentOffset from)) of
                Inl e \<Rightarrow> Inl e
              | Inr left \<Rightarrow>
                  (case Fragment_append left (slice_content slice) of
                     Inl e \<Rightarrow> Inl e
                   | Inr mid \<Rightarrow>
                       (case Fragment_cut (node_content parent) (parentOffset to) None of
                          Inl e \<Rightarrow> Inl e
                        | Inr right \<Rightarrow>
                            (case Fragment_append mid right of
                               Inl e \<Rightarrow> Inl e
                             | Inr c \<Rightarrow> close schema parent c)))))
      else
        (case prepareSliceForReplace slice from of
           Inl e \<Rightarrow> Inl e
         | Inr (start, end) \<Rightarrow>
             (case replaceThreeWay schema from start end to depth of
                Inl e \<Rightarrow> Inl e
              | Inr c \<Rightarrow>
                  (case rp_node from depth of
                     None \<Rightarrow> Inl TypeError
                   | Some n \<Rightarrow> close schema n c))))"
  by pat_completeness auto
termination
  by (relation "measure (\<lambda>(schema, from, to, slice, depth).
                   nat (rp_depth from - openStart slice - depth))") auto

declare replaceOuter.simps [simp del]

definition replace ::
  "'a Schema_scheme \<Rightarrow> ResolvedPos \<Rightarrow> ResolvedPos \<Rightarrow> Slice \<Rightarrow> error + node" where
  "replace schema from to slice =
     (if openStart slice > rp_depth from then Inl ReplaceError
      else if rp_depth from - openStart slice \<noteq> rp_depth to - openEnd slice
      then Inl ReplaceError
      else replaceOuter schema from to slice 0)"

section \<open>Slicing and replacing a document\<close>

text \<open>
  Modelled from the spec: Node.slice and Node.replace (node.ts is not under src/).
  \<open>slice\<close> cuts the content between two positions out of their deepest shared
  ancestor and records how deep each side is open; \<open>replace\<close> resolves both positions
  and runs the replace algorithm.
\<close>

definition Node_slice :: "node \<Rightarrow> int \<Rightarrow> int \<Rightarrow> error + Slice" where
  "Node_slice doc from to =
     (if from = to then Inr Slice_empty
      else case Node_resolve doc from of
        Inl e \<Rightarrow> Inl e
      | Inr rfrom \<Rightarrow>
          (case Node_resolve doc to of
             Inl e \<Rightarrow> Inl e
           | Inr rto \<Rightarrow>
               (let depth = sharedDepth rfrom to
                in case (rp_start rfrom depth, rp_node rfrom depth) of
                     (Some start, Some n) \<Rightarrow>
                       (case Fragment_cut (node_content n) (pos rfrom - start)
                               (Some (pos rto - start)) of
                          Inl e \<Rightarrow> Inl e
                        | Inr c \<Rightarrow>
                            Inr \<lparr>slice_content = c, openStart = rp_depth rfrom - depth,
                                 openEnd = rp_depth rto - depth\<rparr>)
                   | _ \<Rightarrow> Inl TypeError)))"

definition Node_replace :: "'a Schema_scheme \<Rightarrow> node \<Rightarrow> int \<Rightarrow> int \<Rightarrow> Slice \<Rightarrow> error + node" where
  "Node_replace schema doc from to slice =
     (case Node_resolve doc from of
        Inl e \<Rightarrow> Inl e
      | Inr rfrom \<Rightarrow>
          (case Node_resolve doc to of
             Inl e \<Rightarrow> Inl e
           | Inr rto \<Rightarrow> replace schema rfrom rto slice))"

section \<open>Mark sets\<close>

text \<open>
  Modelled from the spec: Mark.addToSet and Mark.removeFromSet (mark.ts is not under
  src/). A mark set is ordered by the rank of the mark types. Adding a mark leaves the
  set alone when the mark is in it or when a member excludes the type of the new mark,
  drops the members that the new mark excludes, and places the mark before the first
  member of a higher rank. Removing a mark drops its first occurrence.
\<close>

definition MarkType_excludes :: "MarkType \<Rightarrow> MarkType \<Rightarrow> bool" where
  "MarkType_excludes t other = (mark_name other \<in> set (excludes t))"

fun addToSet_loop ::
  "Mark \<Rightarrow> Mark list \<Rightarrow> Mark list \<Rightarrow> Mark list \<Rightarrow> Mark list option \<Rightarrow> bool \<Rightarrow> Mark list"
where
  "addToSet_loop m whole seen [] copy placed =
     (let c = (case copy of None \<Rightarrow> whole | Some c' \<Rightarrow> c')
      in if \<not> placed then c @ [m] else c)"
| "addToSet_loop m whole seen (other # rest) copy placed =
     (if m = other then whole
      else if MarkType_excludes (mark_type m) (mark_type other) then
        addToSet_loop m whole (seen @ [other]) rest
          (Some (case copy of None \<Rightarrow> seen | Some c' \<Rightarrow> c')) placed
      else if MarkType_excludes (mark_type other) (mark_type m) then whole
      else if \<not> placed \<and> rank (mark_type other) > rank (mark_type m) then
        addToSet_loop m whole (seen @ [other]) rest
          (Some ((case copy of None \<Rightarrow> seen | Some c' \<Rightarrow> c') @ [m] @ [other])) True
      else
        addToSet_loop m whole (seen @ [other]) rest
          (case copy of None \<Rightarrow> None | Some c' \<Rightarrow> Some (c' @ [other])) placed)"

definition addToSet :: "Mark \<Rightarrow> Mark list \<Rightarrow> Mark list" where
  "addToSet m ms = addToSet_loop m ms [] ms None False"

fun removeFromSet :: "Mark \<Rightarrow> Mark list \<Rightarrow> Mark list" where
  "removeFromSet m [] = []"
| "removeFromSet m (x # xs) = (if m = x then xs else x # removeFromSet m xs)"

section \<open>Mark steps (src/unnamed/part_004)\<close>

text \<open>
  Modelled from the spec: StepResult (step.ts is not under src/), the document of a
  successful application or the reason of a failed one. \<open>fromReplace\<close> runs the replace
  and turns a ReplaceError into a failed result that carries the message of the error;
  any other error is raised again. The ReplaceError of src/model/replace.ts carries no
  message of its own, so the message read from it is the empty string.
\<close>

record StepResult =
  result_doc :: "node option"
  failed :: "string option"

definition StepResult_ok :: "node \<Rightarrow> StepResult" where
  "StepResult_ok d = \<lparr>result_doc = Some d, failed = None\<rparr>"

definition StepResult_fail :: "string \<Rightarrow> StepResult" where
  "StepResult_fail message = \<lparr>result_doc = None, failed = Some message\<rparr>"

definition ReplaceError_message :: string where
  "ReplaceError_message = []"

definition fromReplace ::
  "'a Schema_scheme \<Rightarrow> node \<Rightarrow> int \<Rightarrow> int \<Rightarrow> Slice \<Rightarrow> error + StepResult" where
  "fromReplace schema doc from to slice =
     (case Node_replace schema doc from to slice of
        Inr d \<Rightarrow> Inr (StepResult_ok d)
      | Inl ReplaceError \<Rightarrow> Inr (StepResult_fail ReplaceError_message)
      | Inl e \<Rightarrow> Inl e)"

text \<open>
  \<open>mapFragment\<close>: the children are mapped from left to right, the content of a child
  before the child itself, and the result is rebuilt with \<open>Fragment.fromArray\<close>. The
  callback receives the child, the parent and the index, and may raise.
\<close>

fun mapFragment ::
  "(node \<Rightarrow> node option \<Rightarrow> int \<Rightarrow> error + node) \<Rightarrow> fragment \<Rightarrow> node option
     \<Rightarrow> error + fragment"
and mapFragment_loop ::
  "(node \<Rightarrow> node option \<Rightarrow> int \<Rightarrow> error + node) \<Rightarrow> node list \<Rightarrow> node option \<Rightarrow> int
     \<Rightarrow> error + node list"
where
  "mapFragment f (Fragment cs sz) parent =
     (case mapFragment_loop f cs parent 0 of
        Inl e \<Rightarrow> Inl e
      | Inr mapped \<Rightarrow> Inr (Fragment_fromArray mapped))"
| "mapFragment_loop f [] parent i = Inr []"
| "mapFragment_loop f (TextNode ms s # rest) parent i =
     (case f (TextNode ms s) parent i of
        Inl e \<Rightarrow> Inl e
      | Inr child' \<Rightarrow>
          (case mapFragment_loop f rest parent (i + 1) of
             Inl e \<Rightarrow> Inl e
           | Inr r \<Rightarrow> Inr (child' # r)))"
| "mapFragment_loop f (Node t a ms c # rest) parent i =
     (case (if fsize c \<noteq> 0 then
              (case mapFragment f c (Some (Node t a ms c)) of
                 Inl e \<Rightarrow> Inl e
               | Inr c' \<Rightarrow> Inr (Node_copy (Node t a ms c) c'))
            else Inr (Node t a ms c)) of
        Inl e \<Rightarrow> Inl e
      | Inr child1 \<Rightarrow>
          (case (if node_isInline child1 then f child1 parent i else Inr child1) of
             Inl e \<Rightarrow> Inl e
           | Inr child2 \<Rightarrow>
               (case mapFragment_loop f rest parent (i + 1) of
                  Inl e \<Rightarrow> Inl e
                | Inr r \<Rightarrow> Inr (child2 # r))))"

datatype MarkStep =
    is_AddMarkStep: AddMarkStep (step_from: int) (step_to: int) (step_mark: Mark)
  | RemoveMarkStep (step_from: int) (step_to: int) (step_mark: Mark)

text \<open>
  The callbacks of the two \<open>apply\<close> methods. Reading the type of a missing parent is a
  TypeError.
\<close>

definition addMark_callback ::
  "'a Schema_scheme \<Rightarrow> Mark \<Rightarrow> node \<Rightarrow> node option \<Rightarrow> int \<Rightarrow> error + node" where
  "addMark_callback schema m n parent i =
     (case parent of
        None \<Rightarrow> Inl TypeError
      | Some p \<Rightarrow>
          if \<not> allowsMarkType schema (node_type p) (mark_type m) then Inr n
          else Inr (Node_mark n (addToSet m (marks n))))"

definition removeMark_callback :: "Mark \<Rightarrow> node \<Rightarrow> node option \<Rightarrow> int \<Rightarrow> error + node" where
  "removeMark_callback m n parent i = Inr (Node_mark n (removeFromSet m (marks n)))"

fun MarkStep_apply :: "'a Schema_scheme \<Rightarrow> MarkStep \<Rightarrow> node \<Rightarrow> error + StepResult" where
  "MarkStep_apply schema (AddMarkStep from to m) doc =
     (case Node_slice doc from to of
        Inl e \<Rightarrow> Inl e
      | Inr oldSlice \<Rightarrow>
          (case Node_resolve doc from of
             Inl e \<Rightarrow> Inl e
           | Inr rfrom \<Rightarrow>
               (case mapFragment (addMark_callback schema m) (slice_content oldSlice)
                       (rp_node rfrom (sharedDepth rfrom to)) of
                  Inl e \<Rightarrow> Inl e
                | Inr c \<Rightarrow>
                    fromReplace schema doc from to
                      \<lparr>slice_content = c, openStart = openStart oldSlice,
                       openEnd = openEnd oldSlice\<rparr>)))"
| "MarkStep_apply schema (RemoveMarkStep from to m) doc =
     (case Node_slice doc from to of
        Inl e \<Rightarrow> Inl e
      | Inr oldSlice \<Rightarrow>
          (case mapFragment (removeMark_callback m) (slice_content oldSlice) None of
             Inl e \<Rightarrow> Inl e
           | Inr c \<Rightarrow>
               fromReplace schema doc from to
                 \<lparr>slice_content = c, openStart = openStart oldSlice,
                  openEnd = openEnd oldSlice\<rparr>))"

fun MarkStep_invert :: "MarkStep \<Rightarrow> MarkStep" where
  "MarkStep_invert (AddMarkStep from to m) = RemoveMarkStep from to m"
| "MarkStep_invert (RemoveMarkStep from to m) = AddMarkStep from to m"

text \<open>
  \<open>map\<close>. The argument is anything that maps positions (the interface \<open>Mappable\<close> of
  src/unnamed/part_004); \<open>MapResult\<close> (map.ts is not under src/) is modelled from the
  spec as the mapped position and whether the position was deleted.
\<close>

record MapResult =
  mapped_pos :: int
  deleted :: bool

record Mappable =
  map_pos :: "int \<Rightarrow> int \<Rightarrow> int"
  mapResult :: "int \<Rightarrow> int \<Rightarrow> MapResult"

fun MarkStep_map :: "'a Mappable_scheme \<Rightarrow> MarkStep \<Rightarrow> MarkStep option" where
  "MarkStep_map mapping (AddMarkStep from to m) =
     (let from' = mapResult mapping from 1; to' = mapResult mapping to (- 1)
      in if (deleted from' \<and> deleted to') \<or> mapped_pos from' \<ge> mapped_pos to' then None
         else Some (AddMarkStep (mapped_pos from') (mapped_pos to') m))"
| "MarkStep_map mapping (RemoveMarkStep from to m) =
     (let from' = mapResult mapping from 1; to' = mapResult mapping to (- 1)
      in if (deleted from' \<and> deleted to') \<or> mapped_pos from' \<ge> mapped_pos to' then None
         else Some (RemoveMarkStep (mapped_pos from') (mapped_pos to') m))"

section \<open>Transform (src/transform/transform.ts)\<close>

text \<open>
  Modelled from the spec: Step, StepMap and Mapping (step.ts and map.ts are not under
  src/). A step applies to a document, giving a result or raising, and has a step map;
  a step map is its list of replaced ranges; a mapping is the ordered list of the step
  maps appended to it. A document that may be \<open>null\<close> is a \<open>node option\<close>.
\<close>

type_synonym StepMap = "int list"

record Step =
  Step_apply :: "node option \<Rightarrow> error + StepResult"
  getMap :: StepMap

type_synonym Mapping = "StepMap list"

definition appendMap :: "Mapping \<Rightarrow> StepMap \<Rightarrow> Mapping" where
  "appendMap mapping m = mapping @ [m]"

record Transform =
  doc :: "node option"
  steps :: "Step list"
  docs :: "node option list"
  mapping :: Mapping

definition Transform_new :: "node \<Rightarrow> Transform" where
  "Transform_new d = \<lparr>doc = Some d, steps = [], docs = [], mapping = []\<rparr>"

definition addStep :: "Transform \<Rightarrow> Step \<Rightarrow> node option \<Rightarrow> Transform" where
  "addStep t s d =
     \<lparr>doc = d, steps = steps t @ [s], docs = docs t @ [doc t],
      mapping = appendMap (mapping t) (getMap s)\<rparr>"

text \<open>
  \<open>!result.failed\<close>: a failure reason that is \<open>null\<close> or the empty string is falsy.
\<close>

definition failed_truthy :: "StepResult \<Rightarrow> bool" where
  "failed_truthy r = (case failed r of None \<Rightarrow> False | Some message \<Rightarrow> message \<noteq> [])"

text \<open>
  \<open>maybeStep\<close> and \<open>step\<close> update the transform in place: both return the transform
  as it is left, with the result, or with the error that was thrown, if any. The
  TransformError that \<open>step\<close> throws is built like the ReplaceError above.
\<close>

definition maybeStep :: "Transform \<Rightarrow> Step \<Rightarrow> (error + StepResult) \<times> Transform" where
  "maybeStep t s =
     (case Step_apply s (doc t) of
        Inl e \<Rightarrow> (Inl e, t)
      | Inr result \<Rightarrow>
          if \<not> failed_truthy result then (Inr result, addStep t s (result_doc result))
          else (Inr result, t))"

definition step :: "Transform \<Rightarrow> Step \<Rightarrow> error option \<times> Transform" where
  "step t s =
     (case maybeStep t s of
        (Inl e, t') \<Rightarrow> (Some e, t')
      | (Inr result, t') \<Rightarrow>
          if failed_truthy result then (Some TransformError, t') else (None, t'))"

definition MarkStep_as_Step :: "'a Schema_scheme \<Rightarrow> MarkStep \<Rightarrow> Step" where
  "MarkStep_as_Step schema s =
     \<lparr>Step_apply = (\<lambda>d. case d of None \<Rightarrow> Inl TypeError | Some d' \<Rightarrow> MarkStep_apply schema s d'),
      getMap = []\<rparr>"

section \<open>Well-formed values\<close>

text \<open>
  A fragment is well formed when its cached size is the sum of the sizes of its children
  and, recursively, its children are: a text node is not empty, and a leaf has no content.
\<close>

fun valid_node :: "node \<Rightarrow> bool"
and valid_fragment :: "fragment \<Rightarrow> bool"
where
  "valid_node (TextNode ms s) = (s \<noteq> [])"
| "valid_node (Node t a ms c) = (valid_fragment c \<and> (isLeaf t \<longrightarrow> content c = []))"
| "valid_fragment (Fragment cs sz) =
     (list_all valid_node cs \<and> sz = sum_list (map nodeSize cs))"

text \<open>
  A slice is well formed when its content is, and neither open depth is negative or
  exceeds the depth of the chain of nodes that can be opened at that side of the content.
\<close>

definition valid_slice :: "Slice \<Rightarrow> bool" where
  "valid_slice s =
     (valid_fragment (slice_content s)
      \<and> 0 \<le> openStart s
      \<and> openStart s \<le> openStart_loop True (firstChild (slice_content s))
      \<and> 0 \<le> openEnd s
      \<and> openEnd s \<le> openEnd_loop True (lastChild (slice_content s)))"

text \<open>
  The text-merge invariant of a fragment: no two adjacent children are both text nodes
  with equal mark sets.
\<close>

fun text_merged :: "node list \<Rightarrow> bool" where
  "text_merged [] = True"
| "text_merged [x] = True"
| "text_merged (x # y # rest) =
     (\<not> (isText x \<and> isText y \<and> marks x = marks y) \<and> text_merged (y # rest))"

text \<open>
  What a resolved path is: at every depth the node, the index of the child that holds
  the position and the absolute offset of that child; the position lies strictly inside
  that child at every depth but the last, where it is at a child boundary or inside a
  text node. \<open>start\<close> is the absolute position of the start of the node's content and
  \<open>off\<close> the offset of the position into it.
\<close>

fun good_path :: "node \<Rightarrow> int \<Rightarrow> int \<Rightarrow> int \<Rightarrow> (node \<times> int \<times> int) list \<Rightarrow> bool" where
  "good_path n start off po [] = False"
| "good_path n start off po ((m, i, ofs) # rest) =
     (m = n \<and> 0 \<le> i \<and> i \<le> int (length (content (node_content n)))
      \<and> ofs = start + sum_list (map nodeSize (take (nat i) (content (node_content n))))
      \<and> (if rest = [] then
            po = off
            \<and> (off = ofs - start
               \<or> (i < int (length (content (node_content n)))
                  \<and> isText (content (node_content n) ! nat i)
                  \<and> ofs - start < off
                  \<and> off < ofs - start + nodeSize (content (node_content n) ! nat i)))
          else
            i < int (length (content (node_content n)))
            \<and> \<not> isText (content (node_content n) ! nat i)
            \<and> ofs - start < off
            \<and> off < ofs - start + nodeSize (content (node_content n) ! nat i)
            \<and> good_path (content (node_content n) ! nat i) (ofs + 1)
                  (off - (ofs - start) - 1) po rest))"

text \<open>
  A resolved position \<open>r\<close> is at depth \<open>d\<close> in the node \<open>n\<close> at offset \<open>off\<close> when
  its path from depth \<open>d\<close> on is a path of \<open>n\<close> for that offset.
\<close>

definition at_depth :: "ResolvedPos \<Rightarrow> nat \<Rightarrow> node \<Rightarrow> int \<Rightarrow> bool" where
  "at_depth r d n off =
     (d < length (path r)
      \<and> good_path n (pos r - off) off (parentOffset r) (drop d (path r)))"


text \<open>
  How deep a content can be opened: \<open>open_first k\<close> when the chain of first children
  holds \<open>k\<close> nodes that are not leaves, \<open>open_last k\<close> likewise for the last children,
  and \<open>single_chain k\<close> when the content is \<open>k\<close> nested nodes with one child each, as
  \<open>prepareSliceForReplace\<close> wraps a slice.
\<close>

fun open_first :: "nat \<Rightarrow> fragment \<Rightarrow> bool" where
  "open_first 0 f = True"
| "open_first (Suc k) f =
     (case content f of
        [] \<Rightarrow> False
      | c # cs \<Rightarrow> \<not> node_isLeaf c \<and> open_first k (node_content c))"

fun open_last :: "nat \<Rightarrow> fragment \<Rightarrow> bool" where
  "open_last 0 f = True"
| "open_last (Suc k) f =
     (content f \<noteq> [] \<and> \<not> node_isLeaf (last (content f))
      \<and> open_last k (node_content (last (content f))))"

fun single_chain :: "nat \<Rightarrow> fragment \<Rightarrow> bool" where
  "single_chain 0 f = True"
| "single_chain (Suc k) f =
     (case content f of
        [c] \<Rightarrow> \<not> node_isLeaf c \<and> single_chain k (node_content c)
      | _ \<Rightarrow> False)"

section \<open>Example values\<close>

definition paragraph_type :: NodeType where
  "paragraph_type =
     \<lparr>type_name = ''paragraph'', isLeaf = False, isInline = False, isolating = False\<rparr>"

definition doc_type :: NodeType where
  "doc_type = \<lparr>type_name = ''doc'', isLeaf = False, isInline = False, isolating = False\<rparr>"

definition strong :: Mark where
  "strong =
     \<lparr>mark_type = \<lparr>mark_name = ''strong'', rank = 1, excludes = [''strong'']\<rparr>,
      mark_attrs = []\<rparr>"

definition example_doc :: node where
  "example_doc =
     Node doc_type [] []
       (Fragment [Node paragraph_type [] [] (Fragment [TextNode [] ''abc''] 3)] 5)"

definition marked_doc :: node where
  "marked_doc =
     Node doc_type [] []
       (Fragment [Node paragraph_type [] [] (Fragment [TextNode [strong] ''abc''] 3)] 5)"

text \<open>A schema that accepts every content, join and mark, and deserialises nothing.\<close>

definition any_schema :: Schema where
  "any_schema =
     \<lparr>validContent = (\<lambda>t c. True), compatibleContent = (\<lambda>t t'. True),
      allowsMarkType = (\<lambda>t m. True), nodeFromJSON = (\<lambda>j. Inl RangeError)\<rparr>"

text \<open>A schema whose content model rejects every content.\<close>

definition rejecting_schema :: Schema where
  "rejecting_schema = any_schema\<lparr>validContent := (\<lambda>t c. False)\<rparr>"

text \<open>
  A fragment shaped as a nested single-child chain: a node of type \<open>outer\<close> around a
  node of type \<open>inner\<close> around the text \<open>x\<close>.
\<close>

definition nested_chain :: "NodeType \<Rightarrow> NodeType \<Rightarrow> fragment" where
  "nested_chain outer inner =
     Fragment [Node outer [] []
                 (Fragment [Node inner [] [] (Fragment [TextNode [] ''x''] 1)] 3)] 5"

text \<open>
  A document of two paragraphs, and a slice of two paragraphs that is open by one level
  on both sides.
\<close>

definition two_paragraphs :: node where
  "two_paragraphs =
     Node doc_type [] []
       (Fragment [Node paragraph_type [] [] (Fragment [TextNode [] ''ab''] 2),
                  Node paragraph_type [] [] (Fragment [TextNode [] ''cd''] 2)] 8)"

definition open_slice :: Slice where
  "open_slice =
     \<lparr>slice_content =
        Fragment [Node paragraph_type [] [] (Fragment [TextNode [] ''x''] 1),
                  Node paragraph_type [] [] (Fragment [TextNode [] ''yz''] 2)] 7,
      openStart = 1, openEnd = 1\<rparr>"

section \<open>Sizes of well-formed values\<close>

lemma valid_node_size: "valid_node n \<Longrightarrow> 1 \<le> nodeSize n"
  and valid_fragment_size_nonneg: "valid_fragment f \<Longrightarrow> 0 \<le> fsize f"
proof (induction n and f rule: valid_node_valid_fragment.induct)
  case (1 ms s)
  then show ?case by (cases s) auto
next
  case (2 t a ms c)
  then show ?case by auto
next
  case (3 cs sz)
  have "\<forall>x\<in>set cs. 0 \<le> nodeSize x"
    using 3 by (fastforce simp: list_all_iff)
  then have "0 \<le> sum_list (map nodeSize cs)"
    by (induction cs) auto
  then show ?case using 3(2) by auto
qed

lemma sum_nodeSize_nonneg:
  "list_all valid_node cs \<Longrightarrow> 0 \<le> sum_list (map nodeSize cs)"
  by (induction cs) (auto dest: valid_node_size)

lemma sum_nodeSize_pos:
  "list_all valid_node cs \<Longrightarrow> cs \<noteq> [] \<Longrightarrow> 1 \<le> sum_list (map nodeSize cs)"
  using sum_nodeSize_nonneg valid_node_size by (cases cs) fastforce+

lemma valid_fragment_iff:
  "valid_fragment f =
     (list_all valid_node (content f) \<and> fsize f = sum_list (map nodeSize (content f)))"
  by (cases f) auto

lemma valid_fragment_size_zero:
  assumes "valid_fragment f"
  shows "(fsize f = 0) = (content f = [])"
proof (cases f)
  case (Fragment cs sz)
  then show ?thesis using sum_nodeSize_pos[of cs] assms by (cases "cs = []") auto
qed

lemma sum_butlast_last:
  "cs \<noteq> [] \<Longrightarrow>
     sum_list (map nodeSize cs) = sum_list (map nodeSize (butlast cs)) + nodeSize (last cs)"
  by (induction cs) auto

lemma list_all_butlast: "list_all P cs \<Longrightarrow> list_all P (butlast cs)"
  by (induction cs) auto

lemma list_all_last: "list_all P cs \<Longrightarrow> cs \<noteq> [] \<Longrightarrow> P (last cs)"
  by (induction cs) auto

section \<open>Fragment.append\<close>

lemma Fragment_append_cached:
  "Fragment_append a b = Inr r \<Longrightarrow> fsize r = fsize a + fsize b"
  by (auto simp: Fragment_append_def Fragment_new_def split: if_splits option.splits)

text \<open>
  The shape of the result on well-formed fragments: one of the arguments when the other
  is empty, the two arrays joined, or joined with the boundary text nodes merged.
\<close>

lemma Fragment_append_cases:
  assumes "valid_fragment a" and "valid_fragment b"
  shows "(content b = [] \<and> Fragment_append a b = Inr a)
       \<or> (content b \<noteq> [] \<and> content a = [] \<and> Fragment_append a b = Inr b)
       \<or> (content a \<noteq> [] \<and> content b \<noteq> []
           \<and> \<not> (isText (last (content a)) \<and> sameMarkup (last (content a)) (hd (content b)))
           \<and> Fragment_append a b = Inr (Fragment (content a @ content b) (fsize a + fsize b)))
       \<or> (\<exists>ms s s'. content a \<noteq> [] \<and> content b \<noteq> []
           \<and> last (content a) = TextNode ms s \<and> hd (content b) = TextNode ms s'
           \<and> Fragment_append a b =
               Inr (Fragment (butlast (content a) @ [TextNode ms (s @ s')] @ tl (content b))
                     (fsize a + fsize b)))"
proof (cases "fsize b = 0 \<or> fsize a = 0")
  case True
  then show ?thesis
    using assms valid_fragment_size_zero[of a] valid_fragment_size_zero[of b]
    by (auto simp: Fragment_append_def)
next
  case False
  then have na: "content a \<noteq> []" and nb: "content b \<noteq> []"
    using assms valid_fragment_size_zero by auto
  obtain f fs where b: "content b = f # fs" using nb by (cases "content b") auto
  let ?l = "last (content a)"
  show ?thesis
  proof (cases "isText ?l \<and> sameMarkup ?l f")
    case True
    then obtain ms s s' where l: "?l = TextNode ms s" and f: "f = TextNode ms s'"
      by (cases ?l; cases f) auto
    have "Fragment_append a b =
            Inr (Fragment (butlast (content a) @ [TextNode ms (s @ s')] @ fs)
                  (fsize a + fsize b))"
      using False True na b l f
      by (simp add: Fragment_append_def lastChild_def firstChild_def Fragment_new_def)
    then show ?thesis using na nb b l f by auto
  next
    case nomerge: False
    have "Fragment_append a b = Inr (Fragment (content a @ content b) (fsize a + fsize b))"
      using False nomerge na b
      by (auto simp add: Fragment_append_def lastChild_def firstChild_def Fragment_new_def)
    then show ?thesis using na nb nomerge b by auto
  qed
qed

lemma Fragment_append_valid:
  assumes "valid_fragment a" and "valid_fragment b"
  shows "\<exists>r. Fragment_append a b = Inr r \<and> valid_fragment r"
proof -
  have va: "list_all valid_node (content a)" "fsize a = sum_list (map nodeSize (content a))"
    and vb: "list_all valid_node (content b)" "fsize b = sum_list (map nodeSize (content b))"
    using assms by (auto simp: valid_fragment_iff)
  consider
      (left) "Fragment_append a b = Inr a"
    | (right) "Fragment_append a b = Inr b"
    | (joined) "Fragment_append a b = Inr (Fragment (content a @ content b) (fsize a + fsize b))"
    | (merged) ms s s' where "content a \<noteq> []" "content b \<noteq> []"
        "last (content a) = TextNode ms s" "hd (content b) = TextNode ms s'"
        "Fragment_append a b =
           Inr (Fragment (butlast (content a) @ [TextNode ms (s @ s')] @ tl (content b))
                 (fsize a + fsize b))"
    using Fragment_append_cases[OF assms] by blast
  then show ?thesis
  proof cases
    case left then show ?thesis using assms by simp
  next
    case right then show ?thesis using assms by simp
  next
    case joined then show ?thesis using va vb by simp
  next
    case merged
    have "valid_node (last (content a))"
      using va(1) merged(1) by (rule list_all_last)
    then have s: "s \<noteq> []" using merged(3) by simp
    obtain f fs where b: "content b = f # fs" using merged(2) by (cases "content b") auto
    have "sum_list (map nodeSize (butlast (content a) @ [TextNode ms (s @ s')] @ tl (content b)))
            = fsize a + fsize b"
      using va(2) vb(2) sum_butlast_last[OF merged(1)] merged(3,4) b by simp
    moreover have
      "list_all valid_node (butlast (content a) @ [TextNode ms (s @ s')] @ tl (content b))"
      using list_all_butlast[OF va(1)] vb(1) b s by simp
    ultimately show ?thesis using merged(5) by simp
  qed
qed

text \<open>
  C10. For well-formed fragments \<open>a\<close> and \<open>b\<close>, \<open>a.append(b)\<close> returns a fragment whose
  size is \<open>a.size + b.size\<close>, and that size is the sum of the sizes of its children,
  also when the boundary text nodes were merged into one child.
\<close>

theorem Fragment_append_size:
  assumes "valid_fragment a" and "valid_fragment b"
  shows "\<exists>r. Fragment_append a b = Inr r \<and> fsize r = fsize a + fsize b
           \<and> fsize r = sum_list (map nodeSize (content r))"
proof -
  obtain r where r: "Fragment_append a b = Inr r" "valid_fragment r"
    using Fragment_append_valid[OF assms] by blast
  then show ?thesis
    using Fragment_append_cached[OF r(1)] by (auto simp: valid_fragment_iff)
qed

theorem Fragment_append_size_witness:
  "valid_fragment (Fragment [TextNode [] ''ab''] 2)
   \<and> valid_fragment (Fragment [TextNode [] ''cd'', TextNode [strong] ''e''] 3)
   \<and> (\<exists>r. Fragment_append (Fragment [TextNode [] ''ab''] 2)
              (Fragment [TextNode [] ''cd'', TextNode [strong] ''e''] 3) = Inr r
          \<and> fsize r = 2 + 3 \<and> fsize r = sum_list (map nodeSize (content r))
          \<and> length (content r) = 2)"
  using Fragment_append_size[of "Fragment [TextNode [] ''ab''] 2"
          "Fragment [TextNode [] ''cd'', TextNode [strong] ''e''] 3"]
  by (simp add: Fragment_append_def lastChild_def firstChild_def Fragment_new_def)

section \<open>The open-depth preconditions of replace\<close>

text \<open>
  C2. \<open>replace\<close> fails with a ReplaceError whenever the slice is open deeper at its
  start than the depth of \<open>$from\<close>, and whenever the two sides do not land at the
  same depth, \<open>$from.depth - openStart \<noteq> $to.depth - openEnd\<close>: no document is
  returned, so nothing is clipped or coerced.
\<close>

theorem replace_open_depth_fault:
  assumes "openStart slice > rp_depth rfrom
           \<or> rp_depth rfrom - openStart slice \<noteq> rp_depth rto - openEnd slice"
  shows "replace schema rfrom rto slice = Inl ReplaceError"
  using assms by (auto simp: replace_def)

theorem replace_open_depth_fault_witness:
  "openStart \<lparr>slice_content = Fragment [TextNode [] ''x''] 1, openStart = 1, openEnd = 0\<rparr>
     > rp_depth \<lparr>pos = 0, path = [(example_doc, 0, 0)], parentOffset = 0\<rparr>
   \<and> replace any_schema \<lparr>pos = 0, path = [(example_doc, 0, 0)], parentOffset = 0\<rparr>
         \<lparr>pos = 0, path = [(example_doc, 0, 0)], parentOffset = 0\<rparr>
         \<lparr>slice_content = Fragment [TextNode [] ''x''] 1, openStart = 1, openEnd = 0\<rparr>
       = Inl ReplaceError"
  using replace_open_depth_fault[where
      slice = "\<lparr>slice_content = Fragment [TextNode [] ''x''] 1, openStart = 1, openEnd = 0\<rparr>"
      and rfrom = "\<lparr>pos = 0, path = [(example_doc, 0, 0)], parentOffset = 0\<rparr>"
      and rto = "\<lparr>pos = 0, path = [(example_doc, 0, 0)], parentOffset = 0\<rparr>"
      and schema = any_schema]
  by (simp add: rp_depth_def)

section \<open>Mapping a mark step\<close>

text \<open>
  C6. \<open>map\<close> of an AddMarkStep or a RemoveMarkStep returns \<open>null\<close> exactly when both
  mapped end points are reported deleted or the mapped range is empty or inverted;
  otherwise it returns a step of the same kind and mark between
  \<open>mapResult(from, 1).pos\<close> and \<open>mapResult(to, -1).pos\<close>. It has no failing branch.
\<close>

theorem MarkStep_map_result:
  "(MarkStep_map m s = None)
     = ((deleted (mapResult m (step_from s) 1)
          \<and> deleted (mapResult m (step_to s) (- 1)))
        \<or> mapped_pos (mapResult m (step_from s) 1)
            \<ge> mapped_pos (mapResult m (step_to s) (- 1)))
   \<and> (\<forall>s'. MarkStep_map m s = Some s' \<longrightarrow>
         is_AddMarkStep s' = is_AddMarkStep s
         \<and> step_mark s' = step_mark s
         \<and> step_from s' = mapped_pos (mapResult m (step_from s) 1)
         \<and> step_to s' = mapped_pos (mapResult m (step_to s) (- 1)))"
  by (cases s) (auto simp: Let_def)

theorem MarkStep_map_result_witness:
  "MarkStep_map \<lparr>map_pos = (\<lambda>p a. p + 2),
                  mapResult = (\<lambda>p a. \<lparr>mapped_pos = p + 2, deleted = False\<rparr>)\<rparr>
     (AddMarkStep 1 4 strong) = Some (AddMarkStep 3 6 strong)
   \<and> is_AddMarkStep (AddMarkStep 3 6 strong) = is_AddMarkStep (AddMarkStep 1 4 strong)
   \<and> step_from (AddMarkStep 3 6 strong) = 3"
  using MarkStep_map_result[where
      m = "\<lparr>map_pos = (\<lambda>p a. p + 2),
        mapResult = (\<lambda>p a. \<lparr>mapped_pos = p + 2, deleted = False\<rparr>)\<rparr>"
      and s = "AddMarkStep 1 4 strong"]
  by simp

section \<open>Slice.maxOpen\<close>

text \<open>
  C8, as stated: on the nested chain paragraph(paragraph("x")) with a paragraph type that
  is not isolating, \<open>maxOpen\<close> opens both paragraphs, so both open depths are 2 and
  not 1.
\<close>

theorem maxOpen_nested_counterexample:
  "\<not> isolating paragraph_type
   \<and> openStart (maxOpen (nested_chain paragraph_type paragraph_type) None) = 2
   \<and> openEnd (maxOpen (nested_chain paragraph_type paragraph_type) None) = 2"
  by (simp add: maxOpen_def nested_chain_def firstChild_def lastChild_def paragraph_type_def)

text \<open>
  C8, amended: on a chain of two nodes that are not leaves around a text, both open
  depths are 2 when \<open>openIsolating\<close> is set (the default) or neither type is
  isolating, 1 when only the inner type stops the descent, and 0 when
  \<open>openIsolating\<close> is false and the outer type is isolating.
\<close>

theorem maxOpen_nested:
  assumes "\<not> isLeaf outer" and "\<not> isLeaf inner"
  shows "maxOpen (nested_chain outer inner) openIsolating =
           (let oi = (case openIsolating of None \<Rightarrow> True | Some b \<Rightarrow> b);
                d = (if oi \<or> \<not> isolating outer
                     then (if oi \<or> \<not> isolating inner then 2 else 1) else 0)
            in \<lparr>slice_content = nested_chain outer inner, openStart = d, openEnd = d\<rparr>)"
  using assms
  by (simp add: maxOpen_def nested_chain_def firstChild_def lastChild_def Let_def)

theorem maxOpen_nested_witness:
  "\<not> isLeaf paragraph_type
   \<and> maxOpen (nested_chain (paragraph_type\<lparr>isolating := True\<rparr>) paragraph_type) (Some False)
       = \<lparr>slice_content = nested_chain (paragraph_type\<lparr>isolating := True\<rparr>) paragraph_type,
          openStart = 0, openEnd = 0\<rparr>
   \<and> maxOpen (nested_chain (paragraph_type\<lparr>isolating := True\<rparr>) paragraph_type) None
       = \<lparr>slice_content = nested_chain (paragraph_type\<lparr>isolating := True\<rparr>) paragraph_type,
          openStart = 2, openEnd = 2\<rparr>"
  using maxOpen_nested[where outer = "paragraph_type\<lparr>isolating := True\<rparr>"
          and inner = paragraph_type and openIsolating = "Some False"]
    maxOpen_nested[where outer = "paragraph_type\<lparr>isolating := True\<rparr>"
          and inner = paragraph_type and openIsolating = None]
  by (simp add: paragraph_type_def)

section \<open>Slice JSON\<close>

lemma Node_eq_refl: "Node_eq n n"
  and Fragment_eq_refl: "Fragment_eq f f"
proof (induction n and f)
  case (TextNode ms s) then show ?case by simp
next
  case (Node t a ms c) then show ?case by simp
next
  case (Fragment cs sz)
  have "eq_loop xs xs" if "set xs \<subseteq> set cs" for xs
    using that Fragment by (induction xs) auto
  then show ?case by simp
qed

lemma eq_loop_refl: "eq_loop cs cs"
  by (induction cs) (auto simp: Node_eq_refl)

lemma Fragment_eq_content: "content f = content g \<Longrightarrow> Fragment_eq f g"
  by (cases f) (simp add: eq_loop_refl)

lemma map_result_roundtrip:
  "\<forall>n\<in>set ns. g (f n) = Inr n \<Longrightarrow> map_result g (map f ns) = Inr ns"
  by (induction ns) auto

text \<open>
  C9. For a well-formed slice whose nodes survive the node codec of the schema,
  \<open>Slice.fromJSON(schema, s.toJSON())\<close> is a slice equal (\<open>eq\<close>) to \<open>s\<close>.
  \<open>toJSON\<close> is \<open>null\<close> for an empty content, which \<open>fromJSON\<close> maps to the empty
  slice, and otherwise leaves out \<open>openStart\<close> and \<open>openEnd\<close> exactly when they are 0.
\<close>

theorem Slice_json_roundtrip:
  assumes "valid_slice s"
    and "\<forall>n\<in>set (content (slice_content s)). nodeFromJSON schema (node_toJSON n) = Inr n"
  shows "(\<exists>s'. Slice_fromJSON schema (Slice_toJSON node_toJSON s) = Inr s' \<and> Slice_eq s' s)
       \<and> (content (slice_content s) = [] \<longrightarrow> Slice_toJSON node_toJSON s = JNull)
       \<and> (content (slice_content s) \<noteq> [] \<longrightarrow>
            (json_get (Slice_toJSON node_toJSON s) ''openStart'' = None) = (openStart s = 0)
          \<and> (json_get (Slice_toJSON node_toJSON s) ''openEnd'' = None) = (openEnd s = 0))
       \<and> Slice_fromJSON schema JNull = Inr Slice_empty"
proof -
  have v: "valid_fragment (slice_content s)" and os: "0 \<le> openStart s" and oe: "0 \<le> openEnd s"
    using assms(1) by (auto simp: valid_slice_def)
  have null: "Slice_fromJSON schema JNull = Inr Slice_empty"
    by (simp add: Slice_fromJSON_def)
  show ?thesis
  proof (cases "content (slice_content s) = []")
    case True
    then have sz: "fsize (slice_content s) = 0"
      using valid_fragment_size_zero[OF v] by simp
    have "openStart s = 0" "openEnd s = 0"
      using assms(1) True by (auto simp: valid_slice_def firstChild_def lastChild_def)
    then have "Slice_eq Slice_empty s"
      using True by (simp add: Slice_eq_def Slice_empty_def Fragment_eq_content Fragment_empty_def)
    then show ?thesis using sz null True by (simp add: Slice_toJSON_def)
  next
    case False
    then have sz: "fsize (slice_content s) \<noteq> 0"
      using valid_fragment_size_zero[OF v] by simp
    let ?cs = "content (slice_content s)"
    have frag: "Fragment_fromJSON schema (Some (JArr (map node_toJSON ?cs)))
                  = Inr (Fragment_new ?cs None)"
      using map_result_roundtrip[of ?cs "nodeFromJSON schema" node_toJSON] assms(2)
      by (simp add: Fragment_fromJSON_def)
    have "Slice_fromJSON schema (Slice_toJSON node_toJSON s)
            = Inr \<lparr>slice_content = Fragment_new ?cs None, openStart = openStart s,
                   openEnd = openEnd s\<rparr>"
      using sz False os oe frag
      by (simp add: Slice_fromJSON_def Slice_toJSON_def Fragment_toJSON_def or_zero_def Let_def)
    moreover have "Slice_eq \<lparr>slice_content = Fragment_new ?cs None, openStart = openStart s,
                   openEnd = openEnd s\<rparr> s"
      by (simp add: Slice_eq_def Fragment_eq_content Fragment_new_def eq_loop_refl)
    moreover have "(json_get (Slice_toJSON node_toJSON s) ''openStart'' = None) = (openStart s = 0)"
      "(json_get (Slice_toJSON node_toJSON s) ''openEnd'' = None) = (openEnd s = 0)"
      using sz os oe by (auto simp: Slice_toJSON_def)
    ultimately show ?thesis using null False by simp
  qed
qed

theorem Slice_json_roundtrip_witness:
  "valid_slice \<lparr>slice_content = Fragment [TextNode [] ''x'', TextNode [strong] ''y''] 2,
                openStart = 0, openEnd = 0\<rparr>
   \<and> Slice_fromJSON
        (any_schema\<lparr>nodeFromJSON :=
           (\<lambda>j. case j of JStr t \<Rightarrow> Inr (TextNode [] t)
                 | JArr [JStr t] \<Rightarrow> Inr (TextNode [strong] t) | _ \<Rightarrow> Inl RangeError)\<rparr>)
        (Slice_toJSON (\<lambda>n. if marks n = [] then JStr (node_text n) else JArr [JStr (node_text n)])
           \<lparr>slice_content = Fragment [TextNode [] ''x'', TextNode [strong] ''y''] 2,
            openStart = 0, openEnd = 0\<rparr>)
      = Inr \<lparr>slice_content = Fragment [TextNode [] ''x'', TextNode [strong] ''y''] 2,
             openStart = 0, openEnd = 0\<rparr>"
  using Slice_json_roundtrip[where
      s = "\<lparr>slice_content = Fragment [TextNode [] ''x'', TextNode [strong] ''y''] 2,
            openStart = 0, openEnd = 0\<rparr>"
      and schema = "any_schema\<lparr>nodeFromJSON :=
           (\<lambda>j. case j of JStr t \<Rightarrow> Inr (TextNode [] t)
                 | JArr [JStr t] \<Rightarrow> Inr (TextNode [strong] t) | _ \<Rightarrow> Inl RangeError)\<rparr>"
      and node_toJSON = "\<lambda>n. if marks n = [] then JStr (node_text n) else JArr [JStr (node_text n)]"]
  by (simp add: valid_slice_def firstChild_def lastChild_def Slice_toJSON_def Slice_fromJSON_def
        Fragment_toJSON_def Fragment_fromJSON_def Fragment_new_def or_zero_def strong_def)

section \<open>Transform.maybeStep and Transform.step\<close>

text \<open>
  What the two methods do with a result: a truthy failure reason leaves the transform
  as it was and makes \<open>step\<close> throw; any other result is recorded; an error thrown by
  the step leaves the transform as it was.
\<close>

lemma maybeStep_failed:
  assumes "Step_apply s (doc t) = Inr r" and "failed_truthy r"
  shows "maybeStep t s = (Inr r, t) \<and> step t s = (Some TransformError, t)"
  using assms by (simp add: maybeStep_def step_def)

lemma maybeStep_recorded:
  assumes "Step_apply s (doc t) = Inr r" and "\<not> failed_truthy r"
  shows "maybeStep t s = (Inr r, addStep t s (result_doc r))
       \<and> step t s = (None, addStep t s (result_doc r))"
  using assms by (simp add: maybeStep_def step_def)

lemma maybeStep_raised:
  assumes "Step_apply s (doc t) = Inl e"
  shows "maybeStep t s = (Inl e, t) \<and> step t s = (Some e, t)"
  using assms by (simp add: maybeStep_def step_def)

text \<open>
  C7, at a failing step. The replace of an AddMarkStep is rejected by the content model;
  the failed result carries the empty message of the ReplaceError; \<open>maybeStep\<close>
  records the step, pushes the prior document and sets the document to the \<open>null\<close>
  of the failed result, and \<open>step\<close> does not throw.
\<close>

theorem maybeStep_records_failure_without_message:
  "Step_apply (MarkStep_as_Step rejecting_schema (AddMarkStep 1 4 strong)) (Some example_doc)
     = Inr (StepResult_fail [])
   \<and> maybeStep (Transform_new example_doc)
         (MarkStep_as_Step rejecting_schema (AddMarkStep 1 4 strong))
     = (Inr (StepResult_fail []),
        \<lparr>doc = None,
         steps = [MarkStep_as_Step rejecting_schema (AddMarkStep 1 4 strong)],
         docs = [Some example_doc],
         mapping = [[]]\<rparr>)
   \<and> fst (step (Transform_new example_doc)
              (MarkStep_as_Step rejecting_schema (AddMarkStep 1 4 strong))) = None"
proof -
  have a: "MarkStep_apply rejecting_schema (AddMarkStep 1 4 strong) example_doc
             = Inr (StepResult_fail [])"
    by code_simp
  then have b: "Step_apply (MarkStep_as_Step rejecting_schema (AddMarkStep 1 4 strong))
                  (Some example_doc) = Inr (StepResult_fail [])"
    by (simp add: MarkStep_as_Step_def)
  show ?thesis
    using b
    by (simp add: maybeStep_def step_def Transform_new_def failed_truthy_def
          StepResult_fail_def addStep_def appendMap_def MarkStep_as_Step_def)
qed

section \<open>Fragment.cut after Fragment.append\<close>

lemma cut_loop_take:
  assumes "list_all valid_node A" and "from \<le> p0" and "p0 + sum_list (map nodeSize A) \<le> to"
  shows "cut_loop (A @ rest) p0 from to =
           (case cut_loop rest (p0 + sum_list (map nodeSize A)) from to of
              Inl e \<Rightarrow> Inl e | Inr r \<Rightarrow> Inr (A @ r))"
  using assms
proof (induction A arbitrary: p0)
  case Nil
  then show ?case by (simp split: sum.splits)
next
  case (Cons c A)
  have c: "1 \<le> nodeSize c" using Cons.prems(1) by (simp add: valid_node_size)
  have s: "0 \<le> sum_list (map nodeSize A)" using Cons.prems(1) by (simp add: sum_nodeSize_nonneg)
  have ih: "cut_loop (A @ rest) (p0 + nodeSize c) from to =
           (case cut_loop rest (p0 + nodeSize c + sum_list (map nodeSize A)) from to of
              Inl e \<Rightarrow> Inl e | Inr r \<Rightarrow> Inr (A @ r))"
    using Cons.IH[of "p0 + nodeSize c"] Cons.prems c by simp
  show ?case
    using Cons.prems c s ih by (simp add: Let_def add.assoc split: sum.splits)
qed

lemma cut_loop_skip:
  assumes "list_all valid_node A" and "p0 + sum_list (map nodeSize A) \<le> from" and "from < to"
  shows "cut_loop (A @ rest) p0 from to =
           cut_loop rest (p0 + sum_list (map nodeSize A)) from to"
  using assms
proof (induction A arbitrary: p0)
  case Nil
  then show ?case by simp
next
  case (Cons c A)
  have c: "1 \<le> nodeSize c" using Cons.prems(1) by (simp add: valid_node_size)
  have s: "0 \<le> sum_list (map nodeSize A)" using Cons.prems(1) by (simp add: sum_nodeSize_nonneg)
  show ?case
    using Cons.prems c s Cons.IH[of "p0 + nodeSize c"] by (simp add: Let_def add.assoc)
qed

lemma js_slice_left: "js_slice (s @ s') 0 (int (length s)) = s"
  by (simp add: js_slice_def Let_def min_def)

lemma js_slice_right:
  "js_slice (s @ s') (int (length s)) (int (length s) + int (length s')) = s'"
proof -
  have "nat (int (length s) + int (length s') - int (length s)) = length s'" by simp
  then show ?thesis
    by (simp add: js_slice_def Let_def min_def del: of_nat_add)
qed

lemma TextNode_cut_left:
  "s' \<noteq> [] \<Longrightarrow>
     Node_cut (TextNode ms (s @ s')) 0 (Some (int (length s))) = Inr (TextNode ms s)"
  using js_slice_left[of s s'] by (simp add: Let_def del: of_nat_add)

lemma TextNode_cut_right:
  "s \<noteq> [] \<Longrightarrow>
     Node_cut (TextNode ms (s @ s')) (int (length s)) (Some (int (length s) + int (length s')))
       = Inr (TextNode ms s')"
  using js_slice_right[of s s'] by (simp add: Let_def del: of_nat_add)


lemma cut_loop_done: "to \<le> p0 \<Longrightarrow> cut_loop cs p0 from to = Inr []"
  by (cases cs) auto

lemma Fragment_cut_whole: "Fragment_cut f 0 (Some (fsize f)) = Inr f"
  and Fragment_cut_all: "Fragment_cut f 0 None = Inr f"
  by (cases f; simp)+

lemma Fragment_cut_loop:
  assumes "\<not> (from = 0 \<and> to = fsize f)" and "from < to"
    and "cut_loop (content f) 0 from to = Inr r"
  shows "Fragment_cut f from (Some to) = Inr (Fragment r (sum_list (map nodeSize r)))"
  using assms by (cases f) (auto simp: Fragment_new_def)

lemma Fragment_cut_loop_end:
  assumes "from \<noteq> 0" and "from < fsize f"
    and "cut_loop (content f) 0 from (fsize f) = Inr r"
  shows "Fragment_cut f from None = Inr (Fragment r (sum_list (map nodeSize r)))"
  using assms by (cases f) (auto simp: Fragment_new_def)

lemma Fragment_cut_empty_range:
  assumes "\<not> (from = 0 \<and> to = fsize f)" and "\<not> from < to"
  shows "Fragment_cut f from (Some to) = Inr (Fragment [] 0)"
  using assms by (cases f) (auto simp: Fragment_new_def)

lemma Fragment_cut_empty_end:
  assumes "from \<noteq> 0" and "\<not> from < fsize f"
  shows "Fragment_cut f from None = Inr (Fragment [] 0)"
  using assms by (cases f) (auto simp: Fragment_new_def)

lemma cut_loop_merged_left:
  assumes "s \<noteq> []" and "s' \<noteq> []" and "0 \<le> p"
  shows "cut_loop (TextNode ms (s @ s') # B) p 0 (p + int (length s)) = Inr [TextNode ms s]"
proof -
  have ls: "1 \<le> int (length s)" "1 \<le> int (length s')"
    using assms by (cases s; cases s'; simp)+
  have m: "min (int (length (s @ s'))) (p + int (length s) - p) = int (length s)" by simp
  have c: "Node_cut (TextNode ms (s @ s')) (max 0 (0 - p))
             (Some (min (int (length (s @ s'))) (p + int (length s) - p))) = Inr (TextNode ms s)"
  proof -
    have "max 0 (0 - p) = 0" using assms(3) by simp
    then show ?thesis unfolding m using TextNode_cut_left[OF assms(2), of ms s] by simp
  qed
  have d: "cut_loop B (p + nodeSize (TextNode ms (s @ s'))) 0 (p + int (length s)) = Inr []"
    unfolding nodeSize.simps length_append of_nat_add using ls by (intro cut_loop_done) linarith
  have g: "p < p + int (length s)" "p + nodeSize (TextNode ms (s @ s')) > 0"
    "p + nodeSize (TextNode ms (s @ s')) > p + int (length s)"
    unfolding nodeSize.simps length_append of_nat_add using ls assms(3) by linarith+
  show ?thesis
    unfolding cut_loop.simps Let_def using c d g
    by (simp del: Node_cut.simps nodeSize.simps)
qed

lemma cut_loop_merged_right:
  assumes "s \<noteq> []" and "s' \<noteq> []" and "0 \<le> p" and "list_all valid_node B"
  shows "cut_loop (TextNode ms (s @ s') # B) p (p + int (length s))
           (p + int (length s) + (int (length s') + sum_list (map nodeSize B)))
         = Inr (TextNode ms s' # B)"
proof -
  let ?from = "p + int (length s)"
  let ?to = "p + int (length s) + (int (length s') + sum_list (map nodeSize B))"
  have ls: "1 \<le> int (length s)" "1 \<le> int (length s')"
    using assms by (cases s; cases s'; simp)+
  have q: "0 \<le> sum_list (map nodeSize B)" using assms(4) by (rule sum_nodeSize_nonneg)
  have m: "min (int (length (s @ s'))) (?to - p) = int (length s) + int (length s')"
    using q by simp
  have c: "Node_cut (TextNode ms (s @ s')) (max 0 (?from - p))
             (Some (min (int (length (s @ s'))) (?to - p))) = Inr (TextNode ms s')"
  proof -
    have "max 0 (?from - p) = int (length s)" by simp
    then show ?thesis unfolding m using TextNode_cut_right[OF assms(1), of ms s'] by simp
  qed
  have "?from \<le> p + nodeSize (TextNode ms (s @ s'))" by simp
  moreover have "p + nodeSize (TextNode ms (s @ s')) + sum_list (map nodeSize B) \<le> ?to" by simp
  ultimately have "cut_loop (B @ []) (p + nodeSize (TextNode ms (s @ s'))) ?from ?to
      = (case cut_loop [] (p + nodeSize (TextNode ms (s @ s')) + sum_list (map nodeSize B))
                ?from ?to of Inl e \<Rightarrow> Inl e | Inr r \<Rightarrow> Inr (B @ r))"
    by (rule cut_loop_take[OF assms(4)])
  then have d: "cut_loop B (p + nodeSize (TextNode ms (s @ s'))) ?from ?to = Inr B"
    by simp
  have g: "p < ?to" "p + nodeSize (TextNode ms (s @ s')) > ?from" "p < ?from"
    unfolding nodeSize.simps length_append of_nat_add using ls q by linarith+
  show ?thesis
    unfolding cut_loop.simps Let_def using c d g by (simp del: Node_cut.simps nodeSize.simps)
qed

text \<open>
  C4. For well-formed fragments \<open>a\<close> and \<open>b\<close>, \<open>a.append(b).cut(0, a.size)\<close> is
  equal (\<open>eq\<close>) to \<open>a\<close> and \<open>a.append(b).cut(a.size)\<close> is equal to \<open>b\<close>, also
  when \<open>append\<close> merged the last text node of \<open>a\<close> with the first of \<open>b\<close>.
\<close>

theorem append_cut_roundtrip:
  assumes "valid_fragment a" and "valid_fragment b"
  shows "\<exists>r x y. Fragment_append a b = Inr r
           \<and> Fragment_cut r 0 (Some (fsize a)) = Inr x \<and> Fragment_eq x a
           \<and> Fragment_cut r (fsize a) None = Inr y \<and> Fragment_eq y b"
proof -
  have va: "list_all valid_node (content a)" "fsize a = sum_list (map nodeSize (content a))"
    and vb: "list_all valid_node (content b)" "fsize b = sum_list (map nodeSize (content b))"
    using assms by (auto simp: valid_fragment_iff)
  have za: "(fsize a = 0) = (content a = [])" and zb: "(fsize b = 0) = (content b = [])"
    using assms valid_fragment_size_zero by auto
  have pa: "0 \<le> fsize a" and pb: "0 \<le> fsize b"
    using assms valid_fragment_size_nonneg by auto
  consider
      (left) "content b = []" "Fragment_append a b = Inr a"
    | (right) "content b \<noteq> []" "content a = []" "Fragment_append a b = Inr b"
    | (joined) "content a \<noteq> []" "content b \<noteq> []"
        "Fragment_append a b = Inr (Fragment (content a @ content b) (fsize a + fsize b))"
    | (merged) ms s s' where "content a \<noteq> []" "content b \<noteq> []"
        "last (content a) = TextNode ms s" "hd (content b) = TextNode ms s'"
        "Fragment_append a b =
           Inr (Fragment (butlast (content a) @ [TextNode ms (s @ s')] @ tl (content b))
                 (fsize a + fsize b))"
    using Fragment_append_cases[OF assms] by blast
  then show ?thesis
  proof cases
    case left
    have "\<exists>y. Fragment_cut a (fsize a) None = Inr y \<and> content y = []"
    proof (cases "fsize a = 0")
      case True
      then show ?thesis using za Fragment_cut_all[of a] by simp
    next
      case False
      then show ?thesis using Fragment_cut_empty_end[of "fsize a" a] by simp
    qed
    then show ?thesis
      using left Fragment_cut_whole[of a] Fragment_eq_refl Fragment_eq_content by fastforce
  next
    case right
    have "fsize a = 0" "fsize b \<noteq> 0" using right za zb by auto
    then have "Fragment_cut b 0 (Some (fsize a)) = Inr (Fragment [] 0)"
      using Fragment_cut_empty_range[of 0 "fsize a" b] by simp
    moreover have "Fragment_eq (Fragment [] 0) a"
      using right(2) by (simp add: Fragment_eq_content)
    moreover have "Fragment_cut b (fsize a) None = Inr b"
      using \<open>fsize a = 0\<close> Fragment_cut_all[of b] by simp
    ultimately show ?thesis using right(3) Fragment_eq_refl by auto
  next
    case joined
    let ?r = "Fragment (content a @ content b) (fsize a + fsize b)"
    have sa: "1 \<le> fsize a" and sb: "1 \<le> fsize b"
      using joined za zb pa pb by auto
    have "cut_loop (content a @ content b) 0 0 (fsize a) = Inr (content a)"
      using cut_loop_take[of "content a" 0 0 "fsize a" "content b"] va
      by (simp add: cut_loop_done)
    then have x: "Fragment_cut ?r 0 (Some (fsize a)) = Inr (Fragment (content a) (fsize a))"
      using Fragment_cut_loop[of 0 "fsize a" ?r "content a"] sa sb va(2) by simp
    have "cut_loop (content a @ content b) 0 (fsize a) (fsize a + fsize b) = Inr (content b)"
      using cut_loop_skip[of "content a" 0 "fsize a" "fsize a + fsize b" "content b"]
        cut_loop_take[of "content b" "fsize a" "fsize a" "fsize a + fsize b" "[]"] va vb sb
      by simp
    then have y: "Fragment_cut ?r (fsize a) None = Inr (Fragment (content b) (fsize b))"
      using Fragment_cut_loop_end[of "fsize a" ?r "content b"] sa sb vb(2) by simp
    show ?thesis
      using joined(3) x y by (simp add: Fragment_eq_content)
  next
    case merged
    obtain A where A: "content a = A @ [TextNode ms s]" and bl: "butlast (content a) = A"
      using merged(1,3) append_butlast_last_id[of "content a"] by metis
    obtain B where B: "content b = TextNode ms s' # B" and tl: "tl (content b) = B"
      using merged(2,4) by (cases "content b") auto
    let ?T = "TextNode ms (s @ s')"
    let ?r = "Fragment (A @ [?T] @ B) (fsize a + fsize b)"
    have r: "Fragment_append a b = Inr ?r" using merged(5) bl tl by simp
    have "list_all valid_node (TextNode ms s' # B)" using vb(1) B by simp
    then have vB: "list_all valid_node B" and s': "s' \<noteq> []" by simp_all
    have "list_all valid_node (A @ [TextNode ms s])" using va(1) A by simp
    then have vA: "list_all valid_node A" and s: "s \<noteq> []" by simp_all
    define p where "p = sum_list (map nodeSize A)"
    define q where "q = sum_list (map nodeSize B)"
    have p: "0 \<le> p" and q: "0 \<le> q"
      using vA vB by (auto simp: p_def q_def sum_nodeSize_nonneg)
    have sa: "fsize a = p + int (length s)"
      using va(2) A by (simp add: p_def)
    have sb: "fsize b = int (length s') + q"
      using vb(2) B by (simp add: q_def)
    have ls: "1 \<le> int (length s)" and ls': "1 \<le> int (length s')"
      using s s' by (cases s; cases s'; simp)+
    have left_cut: "cut_loop (?T # B) p 0 (fsize a) = Inr [TextNode ms s]"
      unfolding sa using s s' p by (rule cut_loop_merged_left)
    have "cut_loop (A @ [?T] @ B) 0 0 (fsize a) = Inr (A @ [TextNode ms s])"
      using cut_loop_take[of A 0 0 "fsize a" "?T # B"] vA sa ls left_cut
      unfolding p_def[symmetric] by simp
    then have "Fragment_cut ?r 0 (Some (fsize a))
                 = Inr (Fragment (A @ [TextNode ms s]) (sum_list (map nodeSize (A @ [TextNode ms s]))))"
      using Fragment_cut_loop[of 0 "fsize a" ?r "A @ [TextNode ms s]"] sa sb ls ls' p q
      by (simp del: of_nat_add)
    moreover have "Fragment_eq
        (Fragment (A @ [TextNode ms s]) (sum_list (map nodeSize (A @ [TextNode ms s])))) a"
      by (rule Fragment_eq_content) (simp add: A)
    ultimately have x: "\<exists>x. Fragment_cut ?r 0 (Some (fsize a)) = Inr x \<and> Fragment_eq x a"
      by blast
    have right_cut:
      "cut_loop (?T # B) p (fsize a) (fsize a + fsize b) = Inr (TextNode ms s' # B)"
      unfolding sa sb q_def using s s' p vB by (rule cut_loop_merged_right)
    have "cut_loop (A @ [?T] @ B) 0 (fsize a) (fsize a + fsize b) = Inr (TextNode ms s' # B)"
      using cut_loop_skip[of A 0 "fsize a" "fsize a + fsize b" "?T # B"] vA sa sb ls ls' q
        right_cut
      unfolding p_def[symmetric] by simp
    then have "Fragment_cut ?r (fsize a) None
                 = Inr (Fragment (TextNode ms s' # B) (sum_list (map nodeSize (TextNode ms s' # B))))"
      using Fragment_cut_loop_end[of "fsize a" ?r "TextNode ms s' # B"] sa sb ls ls' p q
      by (simp del: of_nat_add)
    moreover have "Fragment_eq
        (Fragment (TextNode ms s' # B) (sum_list (map nodeSize (TextNode ms s' # B)))) b"
      by (rule Fragment_eq_content) (simp add: B)
    ultimately have y: "\<exists>y. Fragment_cut ?r (fsize a) None = Inr y \<and> Fragment_eq y b"
      by blast
    show ?thesis
      using r x y by blast
  qed
qed

theorem append_cut_roundtrip_witness:
  "valid_fragment (Fragment [TextNode [] ''ab''] 2)
   \<and> valid_fragment (Fragment [TextNode [] ''cd'', TextNode [strong] ''e''] 3)
   \<and> Fragment_append (Fragment [TextNode [] ''ab''] 2)
         (Fragment [TextNode [] ''cd'', TextNode [strong] ''e''] 3)
       = Inr (Fragment [TextNode [] ''abcd'', TextNode [strong] ''e''] 5)
   \<and> Fragment_cut (Fragment [TextNode [] ''abcd'', TextNode [strong] ''e''] 5) 0 (Some 2)
       = Inr (Fragment [TextNode [] ''ab''] 2)
   \<and> Fragment_cut (Fragment [TextNode [] ''abcd'', TextNode [strong] ''e''] 5) 2 None
       = Inr (Fragment [TextNode [] ''cd'', TextNode [strong] ''e''] 3)"
proof -
  have "Fragment_append (Fragment [TextNode [] ''ab''] 2)
         (Fragment [TextNode [] ''cd'', TextNode [strong] ''e''] 3)
       = Inr (Fragment [TextNode [] ''abcd'', TextNode [strong] ''e''] 5)"
    by code_simp
  moreover have
    "Fragment_cut (Fragment [TextNode [] ''abcd'', TextNode [strong] ''e''] 5) 0 (Some 2)
       = Inr (Fragment [TextNode [] ''ab''] 2)"
    by code_simp
  moreover have
    "Fragment_cut (Fragment [TextNode [] ''abcd'', TextNode [strong] ''e''] 5) 2 None
       = Inr (Fragment [TextNode [] ''cd'', TextNode [strong] ''e''] 3)"
    by code_simp
  ultimately show ?thesis
    using append_cut_roundtrip[of "Fragment [TextNode [] ''ab''] 2"
            "Fragment [TextNode [] ''cd'', TextNode [strong] ''e''] 3"]
    by simp
qed

section \<open>The text-merge invariant\<close>

lemma text_merged_append:
  "text_merged (xs @ ys) =
     (text_merged xs \<and> text_merged ys
      \<and> (xs \<noteq> [] \<and> ys \<noteq> [] \<longrightarrow>
           \<not> (isText (last xs) \<and> isText (hd ys) \<and> marks (last xs) = marks (hd ys))))"
proof (induction xs rule: text_merged.induct)
  case 1
  then show ?case by simp
next
  case (2 x)
  then show ?case by (cases ys) auto
next
  case (3 x y rest)
  then show ?case by auto
qed

lemma text_merged_rel:
  assumes "list_all2 (\<lambda>x y. isText x = isText y \<and> marks x = marks y) xs ys"
    and "text_merged ys"
  shows "text_merged xs"
  using assms
proof (induction xs arbitrary: ys rule: text_merged.induct)
  case 1
  then show ?case by simp
next
  case (2 x)
  then show ?case by simp
next
  case (3 x y rest)
  then obtain x' y' rest' where ys: "ys = x' # y' # rest'"
    by (auto simp: list_all2_Cons1)
  then show ?case using 3 by auto
qed

lemma text_merged_drop: "text_merged xs \<Longrightarrow> text_merged (drop j xs)"
  using text_merged_append[of "take j xs" "drop j xs"] by simp

lemma text_merged_take: "text_merged xs \<Longrightarrow> text_merged (take k xs)"
  using text_merged_append[of "take k xs" "drop k xs"] by simp

lemma sameMarkup_text: "isText x \<Longrightarrow> isText y \<Longrightarrow> sameMarkup x y = (marks x = marks y)"
  by (cases x; cases y) auto

lemma sameMarkup_isText: "isText x \<Longrightarrow> sameMarkup x y \<Longrightarrow> isText y"
  by (cases x; cases y) auto

lemma withText_markup: "isText n \<Longrightarrow> isText (withText n s) \<and> marks (withText n s) = marks n"
  by (cases n) auto

lemma Node_cut_markup:
  "Node_cut c from to = Inr c' \<Longrightarrow> isText c' = isText c \<and> marks c' = marks c"
  by (cases c) (auto simp: Let_def split: if_splits sum.splits)

lemma cut_loop_taking:
  assumes "\<forall>c\<in>set cs. 0 \<le> nodeSize c" and "from < p" and "cut_loop cs p from to = Inr r"
  shows "\<exists>k. list_all2 (\<lambda>x y. isText x = isText y \<and> marks x = marks y) r (take k cs)"
  using assms
proof (induction cs arbitrary: p r)
  case Nil
  then show ?case by (auto split: if_splits)
next
  case (Cons c cs)
  show ?case
  proof (cases "p < to")
    case False
    then have "r = []" using Cons.prems(3) by simp
    then show ?thesis by (intro exI[of _ 0]) simp
  next
    case True
    have e: "from < p + nodeSize c" using Cons.prems(1,2) by simp
    obtain c' r' where c': "isText c' = isText c \<and> marks c' = marks c"
      and r': "cut_loop cs (p + nodeSize c) from to = Inr r'" and r: "r = c' # r'"
      using Cons.prems(3) True e
      by (auto simp: Let_def split: if_splits sum.splits dest: Node_cut_markup)
    obtain k where "list_all2 (\<lambda>x y. isText x = isText y \<and> marks x = marks y) r' (take k cs)"
      using Cons.IH[OF _ e r'] Cons.prems(1) by auto
    then show ?thesis using c' r by (intro exI[of _ "Suc k"]) simp
  qed
qed

lemma cut_loop_range:
  assumes "\<forall>c\<in>set cs. 0 \<le> nodeSize c" and "cut_loop cs p from to = Inr r"
  shows "\<exists>j k. list_all2 (\<lambda>x y. isText x = isText y \<and> marks x = marks y) r
                 (take k (drop j cs))"
  using assms
proof (induction cs arbitrary: p r)
  case Nil
  then show ?case by (auto split: if_splits)
next
  case (Cons c cs)
  show ?case
  proof (cases "p < to")
    case False
    then have "r = []" using Cons.prems(2) by simp
    then show ?thesis by (intro exI[of _ 0]) simp
  next
    case True
    show ?thesis
    proof (cases "from < p + nodeSize c")
      case e: True
      obtain c' r' where c': "isText c' = isText c \<and> marks c' = marks c"
        and r': "cut_loop cs (p + nodeSize c) from to = Inr r'" and r: "r = c' # r'"
        using Cons.prems(2) True e
        by (auto simp: Let_def split: if_splits sum.splits dest: Node_cut_markup)
      obtain k where "list_all2 (\<lambda>x y. isText x = isText y \<and> marks x = marks y) r' (take k cs)"
        using cut_loop_taking[OF _ e r'] Cons.prems(1) by auto
      then have "list_all2 (\<lambda>x y. isText x = isText y \<and> marks x = marks y) r
                   (take (Suc k) (drop 0 (c # cs)))"
        using c' r by simp
      then show ?thesis by blast
    next
      case False
      then have "cut_loop cs (p + nodeSize c) from to = Inr r"
        using Cons.prems(2) True by (simp add: Let_def)
      then obtain j k where
        "list_all2 (\<lambda>x y. isText x = isText y \<and> marks x = marks y) r (take k (drop j cs))"
        using Cons.IH Cons.prems(1) by fastforce
      then have "list_all2 (\<lambda>x y. isText x = isText y \<and> marks x = marks y) r
                   (take k (drop (Suc j) (c # cs)))"
        by simp
      then show ?thesis by blast
    qed
  qed
qed

lemma Fragment_cut_merged:
  assumes "valid_fragment a" and "text_merged (content a)" and "Fragment_cut a from to = Inr r"
  shows "text_merged (content r)"
proof (cases a)
  case (Fragment cs sz)
  have nn: "\<forall>c\<in>set cs. 0 \<le> nodeSize c"
    using assms(1) Fragment valid_node_size by (fastforce simp: list_all_iff)
  define to' where "to' = (case to of None \<Rightarrow> sz | Some t \<Rightarrow> t)"
  consider (whole) "r = a" | (empty) "content r = []"
    | (loop) r' where "cut_loop cs 0 from to' = Inr r'" "content r = r'"
    using assms(3) Fragment
    by (auto simp: Let_def to'_def Fragment_new_def split: if_splits sum.splits)
  then show ?thesis
  proof cases
    case whole then show ?thesis using assms(2) by simp
  next
    case empty then show ?thesis by simp
  next
    case loop
    obtain j k where
      "list_all2 (\<lambda>x y. isText x = isText y \<and> marks x = marks y) r' (take k (drop j cs))"
      using cut_loop_range[OF nn loop(1)] by blast
    moreover have "text_merged (take k (drop j cs))"
      using assms(2) Fragment by (simp add: text_merged_take text_merged_drop)
    ultimately show ?thesis using loop(2) text_merged_rel by blast
  qed
qed

lemma fromArray_loop_Some:
  "fromArray_loop seen prev rest (Some j) \<noteq> None"
  by (induction rest arbitrary: seen prev j) (auto simp: Let_def)

lemma text_merged_snoc:
  "text_merged (xs @ [n]) =
     (text_merged xs \<and> (xs \<noteq> [] \<longrightarrow> \<not> (isText (last xs) \<and> isText n \<and> marks (last xs) = marks n)))"
  using text_merged_append[of xs "[n]"] by simp

lemma text_merged_replace_last:
  assumes "text_merged xs" and "xs \<noteq> []"
    and "isText t = isText (last xs)" and "marks t = marks (last xs)"
  shows "text_merged (butlast xs @ [t])"
proof -
  have "list_all2 (\<lambda>x y. isText x = isText y \<and> marks x = marks y)
          (butlast xs @ [t]) (butlast xs @ [last xs])"
    using assms(3,4) by (simp add: list_all2_appendI list_all2_refl)
  then show ?thesis
    using text_merged_rel assms(1,2) by fastforce
qed

lemma fromArray_loop_merged:
  assumes "seen \<noteq> []" and "prev = last seen"
    and "joined = None \<longrightarrow> text_merged seen"
    and "\<forall>j. joined = Some j \<longrightarrow>
           j \<noteq> [] \<and> text_merged j
           \<and> isText (last j) = isText prev \<and> marks (last j) = marks prev"
  shows "text_merged (case fromArray_loop seen prev rest joined of
                        None \<Rightarrow> seen @ rest | Some j \<Rightarrow> j)"
  using assms
proof (induction rest arbitrary: seen prev joined)
  case Nil
  then show ?case by (cases joined) auto
next
  case (Cons n rest)
  show ?case
  proof (cases "isText n \<and> sameMarkup prev n")
    case True
    define eff where "eff = (case joined of None \<Rightarrow> seen | Some j' \<Rightarrow> j')"
    define t where "t = withText n (node_text (last eff) @ node_text n)"
    have eff: "eff \<noteq> [] \<and> text_merged eff
      \<and> isText (last eff) = isText prev \<and> marks (last eff) = marks prev"
    proof (cases joined)
      case None
      then show ?thesis using Cons.prems by (simp add: eff_def)
    next
      case (Some j)
      then show ?thesis using Cons.prems by (simp add: eff_def)
    qed
    have prev: "isText prev \<and> marks prev = marks n"
      using True by (cases prev; cases n) auto
    have t: "isText t" "marks t = marks n"
      using True withText_markup[of n] by (auto simp: t_def)
    have step: "fromArray_loop seen prev (n # rest) joined
                  = fromArray_loop (seen @ [n]) n rest (Some (butlast eff @ [t]))"
      using True by (simp add: Let_def eff_def t_def)
    have "text_merged (butlast eff @ [t])"
      using text_merged_replace_last[of eff t] eff prev t by simp
    then have "text_merged (case fromArray_loop (seen @ [n]) n rest (Some (butlast eff @ [t])) of
                        None \<Rightarrow> (seen @ [n]) @ rest | Some j \<Rightarrow> j)"
      using Cons.IH[of "seen @ [n]" n "Some (butlast eff @ [t])"] t True by simp
    then show ?thesis
      unfolding step using fromArray_loop_Some[of "seen @ [n]" n rest "butlast eff @ [t]"]
      by (auto split: option.splits)
  next
    case False
    have nm: "\<not> (isText prev \<and> isText n \<and> marks prev = marks n)"
      using False sameMarkup_text[of prev n] by auto
    show ?thesis
    proof (cases joined)
      case None
      have step: "fromArray_loop seen prev (n # rest) joined
                    = fromArray_loop (seen @ [n]) n rest None"
        using False None by auto
      have "text_merged (seen @ [n])"
        using Cons.prems None nm by (simp add: text_merged_snoc)
      then have "text_merged (case fromArray_loop (seen @ [n]) n rest None of
                        None \<Rightarrow> (seen @ [n]) @ rest | Some j \<Rightarrow> j)"
        using Cons.IH[of "seen @ [n]" n None] by simp
      then show ?thesis unfolding step by (auto split: option.splits)
    next
      case (Some j)
      have step: "fromArray_loop seen prev (n # rest) joined
                    = fromArray_loop (seen @ [n]) n rest (Some (j @ [n]))"
        using False Some by auto
      have "text_merged (j @ [n])"
        using Cons.prems Some nm by (simp add: text_merged_snoc)
      then have "text_merged (case fromArray_loop (seen @ [n]) n rest (Some (j @ [n])) of
                        None \<Rightarrow> (seen @ [n]) @ rest | Some j \<Rightarrow> j)"
        using Cons.IH[of "seen @ [n]" n "Some (j @ [n])"] by simp
      then show ?thesis
        unfolding step using fromArray_loop_Some[of "seen @ [n]" n rest "j @ [n]"]
        by (auto split: option.splits)
    qed
  qed
qed

lemma Fragment_fromArray_merged: "text_merged (content (Fragment_fromArray array))"
proof (cases array)
  case Nil
  then show ?thesis by (simp add: Fragment_fromArray_def Fragment_empty_def)
next
  case (Cons n rest)
  have "text_merged (case fromArray_loop [n] n rest None of
                        None \<Rightarrow> [n] @ rest | Some j \<Rightarrow> j)"
    by (rule fromArray_loop_merged) simp_all
  then show ?thesis
    using Cons by (simp add: Fragment_fromArray_def Fragment_new_def split: option.splits)
qed

lemma Fragment_append_merged:
  assumes "text_merged (content a)" and "text_merged (content b)"
    and "Fragment_append a b = Inr r"
  shows "text_merged (content r)"
proof -
  consider (left) "r = a" | (right) "r = b"
    | (joined) "content a \<noteq> []" "content r = content a @ content b"
        "\<not> (isText (last (content a)) \<and> content b \<noteq> []
            \<and> sameMarkup (last (content a)) (hd (content b)))"
    | (merged) "content a \<noteq> []" "content b \<noteq> []" "isText (last (content a))"
        "sameMarkup (last (content a)) (hd (content b))"
        "content r = butlast (content a)
           @ [withText (last (content a))
                (node_text (last (content a)) @ node_text (hd (content b)))]
           @ tl (content b)"
  proof (cases "fsize b = 0")
    case True
    then have "r = a" using assms(3) by (simp add: Fragment_append_def)
    then show ?thesis using left by blast
  next
    case nb: False
    show ?thesis
    proof (cases "fsize a = 0")
      case True
      then have "r = b" using assms(3) nb by (simp add: Fragment_append_def)
      then show ?thesis using right by blast
    next
      case na: False
      have ca: "content a \<noteq> []"
        using assms(3) nb na by (auto simp: Fragment_append_def lastChild_def split: if_splits)
      then have lc: "lastChild a = Some (last (content a))" by (simp add: lastChild_def)
      show ?thesis
      proof (cases "isText (last (content a))")
        case False
        then have "content r = content a @ content b"
          using assms(3) nb na lc by (auto simp: Fragment_append_def Fragment_new_def)
        then show ?thesis using joined ca False by blast
      next
        case True
        have cb: "content b \<noteq> []"
          using assms(3) nb na lc True
          by (auto simp: Fragment_append_def firstChild_def split: list.splits)
        then obtain f0 B where B: "content b = f0 # B" by (cases "content b") auto
        then have fc: "firstChild b = Some f0" by (simp add: firstChild_def)
        show ?thesis
        proof (cases "sameMarkup (last (content a)) f0")
          case False
          then have "content r = content a @ content b"
            using assms(3) nb na lc True fc by (auto simp: Fragment_append_def Fragment_new_def)
          then show ?thesis using joined ca False B by simp
        next
          case sm: True
          then have "content r = butlast (content a)
             @ [withText (last (content a))
                  (node_text (last (content a)) @ node_text (hd (content b)))]
             @ tl (content b)"
            using assms(3) nb na lc True fc B
            by (auto simp: Fragment_append_def Fragment_new_def)
          then show ?thesis using merged[OF ca cb True] sm B by simp
        qed
      qed
    qed
  qed
  then show ?thesis
  proof cases
    case left then show ?thesis using assms(1) by simp
  next
    case right then show ?thesis using assms(2) by simp
  next
    case joined
    have "content b \<noteq> [] \<Longrightarrow>
            \<not> (isText (last (content a)) \<and> isText (hd (content b))
               \<and> marks (last (content a)) = marks (hd (content b)))"
      using joined(3) sameMarkup_text by blast
    then show ?thesis
      using joined(1,2) assms(1,2) by (auto simp: text_merged_append)
  next
    case merged
    obtain f0 B where B: "content b = f0 # B" using merged(2) by (cases "content b") auto
    let ?l = "last (content a)"
    let ?t = "withText ?l (node_text ?l @ node_text f0)"
    have f: "isText f0" "marks f0 = marks ?l"
      using merged(3,4) B sameMarkup_isText[of ?l f0] sameMarkup_text[of ?l f0] by auto
    have t: "isText ?t" "marks ?t = marks ?l"
      using withText_markup[OF merged(3)] by auto
    have left: "text_merged (butlast (content a) @ [?t])"
      using text_merged_replace_last[OF assms(1) merged(1), of ?t] t merged(3) by simp
    have "list_all2 (\<lambda>x y. isText x = isText y \<and> marks x = marks y) (?t # B) (f0 # B)"
      using t f by (simp add: list_all2_refl)
    moreover have "text_merged (f0 # B)" using assms(2) B by simp
    ultimately have right: "text_merged (?t # B)" by (rule text_merged_rel)
    have "text_merged ((butlast (content a) @ [?t]) @ B)"
      using left right by (cases B) (simp_all add: text_merged_append)
    moreover have "content r = (butlast (content a) @ [?t]) @ B"
      using merged(5) B by simp
    ultimately show ?thesis by simp
  qed
qed

text \<open>
  C5, as stated: for fragments that hold adjacent text children with identical marks the
  invariant does not hold after \<open>append\<close> or \<open>cut\<close>. \<open>append\<close> only merges the two
  nodes at the boundary and \<open>cut\<close> merges nothing, so an adjacent pair inside an
  argument stays.
\<close>

theorem text_merge_closure_counterexample:
  "Fragment_append (Fragment [TextNode [] ''a'', TextNode [] ''b''] 2)
     (Fragment [TextNode [strong] ''c''] 1)
     = Inr (Fragment [TextNode [] ''a'', TextNode [] ''b'', TextNode [strong] ''c''] 3)
   \<and> \<not> text_merged [TextNode [] ''a'', TextNode [] ''b'', TextNode [strong] ''c'']
   \<and> Fragment_cut (Fragment [TextNode [] ''a'', TextNode [] ''b'', TextNode [strong] ''c''] 3)
         0 (Some 2)
     = Inr (Fragment [TextNode [] ''a'', TextNode [] ''b''] 2)
   \<and> \<not> text_merged [TextNode [] ''a'', TextNode [] ''b'']"
  by (simp add: Fragment_append_def lastChild_def firstChild_def Fragment_new_def strong_def)

text \<open>
  C5, amended: \<open>Fragment.fromArray\<close> establishes the invariant for every array;
  \<open>append\<close> keeps it when both arguments satisfy it; \<open>cut\<close> keeps it on a well-formed
  fragment that satisfies it.
\<close>

theorem text_merge_closure:
  "text_merged (content (Fragment_fromArray array))
   \<and> (text_merged (content a) \<and> text_merged (content b) \<and> Fragment_append a b = Inr r
        \<longrightarrow> text_merged (content r))
   \<and> (valid_fragment c \<and> text_merged (content c) \<and> Fragment_cut c lo hi = Inr r'
        \<longrightarrow> text_merged (content r'))"
  using Fragment_fromArray_merged Fragment_append_merged Fragment_cut_merged by blast

theorem text_merge_closure_witness:
  "Fragment_fromArray [TextNode [] ''a'', TextNode [] ''b'', TextNode [strong] ''c'']
     = Fragment [TextNode [] ''ab'', TextNode [strong] ''c''] 3
   \<and> text_merged [TextNode [] ''ab'', TextNode [strong] ''c'']
   \<and> Fragment_append (Fragment [TextNode [] ''ab'', TextNode [strong] ''c''] 3)
         (Fragment [TextNode [strong] ''d''] 1)
       = Inr (Fragment [TextNode [] ''ab'', TextNode [strong] ''cd''] 4)
   \<and> text_merged [TextNode [] ''ab'', TextNode [strong] ''cd'']
   \<and> valid_fragment (Fragment [TextNode [] ''ab'', TextNode [strong] ''cd''] 4)
   \<and> Fragment_cut (Fragment [TextNode [] ''ab'', TextNode [strong] ''cd''] 4) 1 (Some 3)
       = Inr (Fragment [TextNode [] ''b'', TextNode [strong] ''c''] 2)
   \<and> text_merged [TextNode [] ''b'', TextNode [strong] ''c'']"
proof -
  have "Fragment_fromArray [TextNode [] ''a'', TextNode [] ''b'', TextNode [strong] ''c'']
          = Fragment [TextNode [] ''ab'', TextNode [strong] ''c''] 3"
    by code_simp
  moreover have
    "Fragment_append (Fragment [TextNode [] ''ab'', TextNode [strong] ''c''] 3)
         (Fragment [TextNode [strong] ''d''] 1)
       = Inr (Fragment [TextNode [] ''ab'', TextNode [strong] ''cd''] 4)"
    by code_simp
  moreover have
    "Fragment_cut (Fragment [TextNode [] ''ab'', TextNode [strong] ''cd''] 4) 1 (Some 3)
       = Inr (Fragment [TextNode [] ''b'', TextNode [strong] ''c''] 2)"
    by code_simp
  ultimately show ?thesis
    using text_merge_closure[where
        array = "[TextNode [] ''a'', TextNode [] ''b'', TextNode [strong] ''c'']"
        and a = "Fragment [TextNode [] ''ab'', TextNode [strong] ''c''] 3"
        and b = "Fragment [TextNode [strong] ''d''] 1"
        and r = "Fragment [TextNode [] ''ab'', TextNode [strong] ''cd''] 4"
        and c = "Fragment [TextNode [] ''ab'', TextNode [strong] ''cd''] 4"
        and lo = 1 and hi = "Some 3"
        and r' = "Fragment [TextNode [] ''b'', TextNode [strong] ''c''] 2"]
    by (simp add: strong_def)
qed

section \<open>The size of a replaced document\<close>

subsection \<open>Resolving a position\<close>

lemma findIndex_loop_good:
  assumes "\<forall>c\<in>set cs. 0 \<le> nodeSize c" and "cur < p" and "p \<le> cur + sum_list (map nodeSize cs)"
  shows "\<exists>k. k \<le> length cs
           \<and> findIndex_loop cs i0 cur p (- 1)
               = Inr (i0 + int k, cur + sum_list (map nodeSize (take k cs)))
           \<and> (cur + sum_list (map nodeSize (take k cs)) = p
              \<or> (k < length cs \<and> cur + sum_list (map nodeSize (take k cs)) < p
                 \<and> p < cur + sum_list (map nodeSize (take k cs)) + nodeSize (cs ! k)))"
  using assms
proof (induction cs arbitrary: i0 cur)
  case Nil
  then show ?case by simp
next
  case (Cons c cs)
  show ?case
  proof (cases "cur + nodeSize c \<ge> p")
    case True
    show ?thesis
    proof (cases "cur + nodeSize c = p")
      case e: True
      then show ?thesis
        by (intro exI[of _ 1]) (simp add: Let_def)
    next
      case False
      then show ?thesis using True Cons.prems
        by (intro exI[of _ 0]) (simp add: Let_def)
    qed
  next
    case False
    then obtain k where k: "k \<le> length cs"
      "findIndex_loop cs (i0 + 1) (cur + nodeSize c) p (- 1)
         = Inr (i0 + 1 + int k, cur + nodeSize c + sum_list (map nodeSize (take k cs)))"
      "cur + nodeSize c + sum_list (map nodeSize (take k cs)) = p
       \<or> (k < length cs \<and> cur + nodeSize c + sum_list (map nodeSize (take k cs)) < p
          \<and> p < cur + nodeSize c + sum_list (map nodeSize (take k cs)) + nodeSize (cs ! k))"
      using Cons.IH[of "cur + nodeSize c" "i0 + 1"] Cons.prems by auto
    then show ?thesis using False
      by (intro exI[of _ "Suc k"]) (simp add: Let_def add.assoc)
  qed
qed

lemma sum_take_mono:
  assumes "\<forall>c\<in>set cs. 0 \<le> nodeSize c"
  shows "sum_list (map nodeSize (take k cs)) \<le> sum_list (map nodeSize cs)"
proof -
  have "sum_list (map nodeSize cs)
          = sum_list (map nodeSize (take k cs)) + sum_list (map nodeSize (drop k cs))"
    by (metis append_take_drop_id map_append sum_list_append)
  moreover have "0 \<le> sum_list (map nodeSize (drop k cs))"
    using assms by (intro sum_list_nonneg) (auto dest: in_set_dropD)
  ultimately show ?thesis by simp
qed

lemma Fragment_findIndex_good:
  assumes "valid_fragment f" and "0 \<le> p" and "p \<le> fsize f"
  shows "\<exists>k. k \<le> length (content f)
           \<and> Fragment_findIndex f p (- 1)
               = Inr (int k, sum_list (map nodeSize (take k (content f))))
           \<and> (sum_list (map nodeSize (take k (content f))) = p
              \<or> (k < length (content f) \<and> sum_list (map nodeSize (take k (content f))) < p
                 \<and> p < sum_list (map nodeSize (take k (content f))) + nodeSize (content f ! k)))"
proof -
  have v: "list_all valid_node (content f)" "fsize f = sum_list (map nodeSize (content f))"
    using assms(1) by (auto simp: valid_fragment_iff)
  have nn: "\<forall>c\<in>set (content f). 0 \<le> nodeSize c"
    using v(1) valid_node_size by (fastforce simp: list_all_iff)
  show ?thesis
  proof (cases "p = 0")
    case True
    then show ?thesis by (intro exI[of _ 0]) (simp add: Fragment_findIndex_def)
  next
    case nz: False
    show ?thesis
    proof (cases "p = fsize f")
      case True
      then show ?thesis using nz v(2)
        by (intro exI[of _ "length (content f)"]) (simp add: Fragment_findIndex_def)
    next
      case False
      then have "findIndex_loop (content f) 0 0 p (- 1) = Fragment_findIndex f p (- 1)"
        using nz assms by (simp add: Fragment_findIndex_def)
      then show ?thesis
        using findIndex_loop_good[OF nn, of 0 p 0] assms nz v(2) by auto
    qed
  qed
qed


lemma size_child:
  assumes "c \<in> set (content (node_content n))"
  shows "size c < size n"
proof -
  have mem_less: "x \<in> set xs \<Longrightarrow> size x < Suc (size_list size xs)" for x :: node and xs
    by (induction xs) auto
  show ?thesis
    using assms mem_less[of c "content (node_content n)"]
    by (cases n; cases "node_content n") (auto simp: Fragment_empty_def)
qed

lemma valid_child:
  assumes "valid_fragment (node_content n)" and "k < length (content (node_content n))"
  shows "valid_node (content (node_content n) ! k)"
  using assms by (simp add: valid_fragment_iff list_all_length)

lemma valid_node_content: "valid_node n \<Longrightarrow> valid_fragment (node_content n)"
  by (cases n) (auto simp: Fragment_empty_def)

lemma nodeSize_inner:
  assumes "valid_node c" and "\<not> isText c" and "1 < nodeSize c"
  shows "nodeSize c = 2 + fsize (node_content c)" and "\<not> node_isLeaf c"
  using assms by (cases c; auto split: if_splits)+

lemma resolve_loop_good:
  assumes "valid_fragment (node_content n)" and "0 \<le> off" and "off \<le> fsize (node_content n)"
  shows "\<exists>pth po. resolve_loop n start off = Inr (pth, po) \<and> good_path n start off po pth"
  using assms
proof (induction n arbitrary: start off rule: measure_induct_rule[of size])
  case (less n)
  let ?cs = "content (node_content n)"
  have vf: "valid_fragment (node_content n)" using less.prems(1) .
  obtain k where k: "k \<le> length ?cs"
    and fi: "Fragment_findIndex (node_content n) off (- 1)
               = Inr (int k, sum_list (map nodeSize (take k ?cs)))"
    and alt: "sum_list (map nodeSize (take k ?cs)) = off
              \<or> (k < length ?cs \<and> sum_list (map nodeSize (take k ?cs)) < off
                 \<and> off < sum_list (map nodeSize (take k ?cs)) + nodeSize (?cs ! k))"
    using Fragment_findIndex_good[OF vf less.prems(2,3)] by blast
  define ofs where "ofs = sum_list (map nodeSize (take k ?cs))"
  show ?case
  proof (cases "ofs = off")
    case True
    have "resolve_loop n start off = Inr ([(n, int k, start + ofs)], off)"
      using fi True by (subst resolve_loop.simps) (simp add: ofs_def)
    moreover have "good_path n start off off [(n, int k, start + ofs)]"
      using k True by (simp add: ofs_def)
    ultimately show ?thesis by blast
  next
    case False
    then have kl: "k < length ?cs" and lo: "ofs < off" and hi: "off < ofs + nodeSize (?cs ! k)"
      using alt by (auto simp: ofs_def)
    let ?c = "?cs ! k"
    have ch: "Fragment_child (node_content n) (int k) = Inr ?c"
      using kl by (simp add: Fragment_child_def)
    show ?thesis
    proof (cases "isText ?c")
      case True
      have "resolve_loop n start off = Inr ([(n, int k, start + ofs)], off)"
        using fi False ch True by (subst resolve_loop.simps) (simp add: ofs_def)
      moreover have "good_path n start off off [(n, int k, start + ofs)]"
        using kl lo hi True by (simp add: ofs_def)
      ultimately show ?thesis by blast
    next
      case nt: False
      have vc: "valid_node ?c" using less.prems(1) kl by (rule valid_child)
      have sz: "nodeSize ?c = 2 + fsize (node_content ?c)"
        using nodeSize_inner(1)[OF vc nt] lo hi by simp
      have "size ?c < size n" using kl by (intro size_child) simp
      then obtain pth po where
        r: "resolve_loop ?c (start + ofs + 1) (off - ofs - 1) = Inr (pth, po)"
        and g: "good_path ?c (start + ofs + 1) (off - ofs - 1) po pth"
        using less.IH[of ?c "off - ofs - 1" "start + ofs + 1"] valid_node_content[OF vc] lo hi sz
        by auto
      have "resolve_loop n start off = Inr ((n, int k, start + ofs) # pth, po)"
        using fi False ch nt r by (subst resolve_loop.simps) (simp add: ofs_def)
      moreover have "good_path n start off po ((n, int k, start + ofs) # pth)"
      proof -
        have "pth \<noteq> []" using g by (cases pth) auto
        then show ?thesis using kl lo hi nt g by (simp add: ofs_def)
      qed
      ultimately show ?thesis by blast
    qed
  qed
qed

subsection \<open>What the ranges of \<open>addRange\<close> add\<close>

lemma addNode_size:
  "sum_list (map nodeSize (addNode c t)) = sum_list (map nodeSize t) + nodeSize c"
proof (cases "t \<noteq> [] \<and> isText c \<and> sameMarkup c (last t)")
  case True
  then obtain ms s ms' s' where c: "c = TextNode ms s" and l: "last t = TextNode ms' s'"
    by (cases c; cases "last t") auto
  have "sum_list (map nodeSize t) = sum_list (map nodeSize (butlast t)) + nodeSize (last t)"
    using True by (intro sum_butlast_last) simp
  then show ?thesis using True c l by (simp add: addNode_def)
next
  case False
  then show ?thesis by (auto simp: addNode_def)
qed

lemma addRange_loop_size:
  assumes "0 \<le> si" and "ei \<le> int (length (content (node_content n)))"
  shows "\<exists>t'. addRange_loop n si ei t = Inr t'
           \<and> sum_list (map nodeSize t')
              = sum_list (map nodeSize t)
                + sum_list (map nodeSize (drop (nat si) (take (nat ei) (content (node_content n)))))"
  using assms
proof (induction "nat (ei - si)" arbitrary: si t)
  case 0
  then have "\<not> si < ei" by simp
  then have "addRange_loop n si ei t = Inr t" by (subst addRange_loop.simps) simp
  moreover have "drop (nat si) (take (nat ei) (content (node_content n))) = []"
    using \<open>\<not> si < ei\<close> by simp
  ultimately show ?case by simp
next
  case (Suc k)
  then have lt: "si < ei" by linarith
  let ?cs = "content (node_content n)"
  have ch: "Fragment_child (node_content n) si = Inr (?cs ! nat si)"
    using lt Suc.prems by (simp add: Fragment_child_def)
  obtain t' where t': "addRange_loop n (si + 1) ei (addNode (?cs ! nat si) t) = Inr t'"
    "sum_list (map nodeSize t')
       = sum_list (map nodeSize (addNode (?cs ! nat si) t))
         + sum_list (map nodeSize (drop (nat (si + 1)) (take (nat ei) ?cs)))"
  proof -
    have "k = nat (ei - (si + 1))" using Suc.hyps(2) by linarith
    then show ?thesis
      using Suc.hyps(1)[of "si + 1" "addNode (?cs ! nat si) t"] Suc.prems that by auto
  qed
  have step: "addRange_loop n si ei t = Inr t'"
    using lt ch t'(1) by (subst addRange_loop.simps) simp
  have "nat si < length (take (nat ei) ?cs)" using lt Suc.prems by simp
  then have "drop (nat si) (take (nat ei) ?cs)
               = (take (nat ei) ?cs ! nat si) # drop (Suc (nat si)) (take (nat ei) ?cs)"
    by (rule Cons_nth_drop_Suc[symmetric])
  moreover have "take (nat ei) ?cs ! nat si = ?cs ! nat si" using lt Suc.prems by simp
  moreover have "nat (si + 1) = Suc (nat si)" using Suc.prems by simp
  ultimately show ?case using step t'(2) by (simp add: addNode_size)
qed


lemma rp_entry_nth:
  "d < length (path r) \<Longrightarrow> rp_entry r (int d) = Some (path r ! d)"
  by (simp add: rp_entry_def resolveDepth_def)

lemma rp_entry_beyond:
  "length (path r) \<le> d \<Longrightarrow> rp_entry r (int d) = None"
  by (simp add: rp_entry_def resolveDepth_def)

lemma rp_depth_gt: "(rp_depth r > int d) = (Suc d < length (path r))"
  by (auto simp: rp_depth_def)

lemma rp_depth_eq: "d < length (path r) \<Longrightarrow> (rp_depth r = int d) = (Suc d = length (path r))"
  by (auto simp: rp_depth_def)

lemma good_path_head:
  assumes "good_path n start off po ((m, i, ofs) # rest)"
  shows "m = n" and "0 \<le> i" and "i \<le> int (length (content (node_content n)))"
    and "ofs = start + sum_list (map nodeSize (take (nat i) (content (node_content n))))"
  using assms by simp_all

lemma good_path_last:
  assumes "good_path n start off po [(m, i, ofs)]"
  shows "po = off"
    and "off = sum_list (map nodeSize (take (nat i) (content (node_content n))))
         \<or> (i < int (length (content (node_content n)))
            \<and> isText (content (node_content n) ! nat i)
            \<and> sum_list (map nodeSize (take (nat i) (content (node_content n)))) < off
            \<and> off < sum_list (map nodeSize (take (nat i) (content (node_content n))))
                      + nodeSize (content (node_content n) ! nat i))"
proof -
  let ?cs = "content (node_content n)"
  let ?S = "sum_list (map nodeSize (take (nat i) ?cs))"
  have o: "ofs = start + ?S" using good_path_head(4)[OF assms] .
  show "po = off" using assms by simp
  have d: "off = ofs - start \<or> (i < int (length ?cs) \<and> isText (?cs ! nat i)
            \<and> ofs - start < off \<and> off < ofs - start + nodeSize (?cs ! nat i))"
    using assms by (simp only: good_path.simps if_True simp_thms) blast
  have e: "ofs - start = ?S" using o by linarith
  show "off = ?S \<or> (i < int (length ?cs) \<and> isText (?cs ! nat i)
            \<and> ?S < off \<and> off < ?S + nodeSize (?cs ! nat i))"
    using d unfolding e .
qed

lemma good_path_inner:
  assumes "good_path n start off po ((m, i, ofs) # rest)" and "rest \<noteq> []"
  shows "i < int (length (content (node_content n)))"
    and "\<not> isText (content (node_content n) ! nat i)"
    and "sum_list (map nodeSize (take (nat i) (content (node_content n)))) < off"
    and "off < sum_list (map nodeSize (take (nat i) (content (node_content n))))
                 + nodeSize (content (node_content n) ! nat i)"
    and "good_path (content (node_content n) ! nat i)
           (start + sum_list (map nodeSize (take (nat i) (content (node_content n)))) + 1)
           (off - sum_list (map nodeSize (take (nat i) (content (node_content n)))) - 1) po rest"
proof -
  let ?cs = "content (node_content n)"
  let ?S = "sum_list (map nodeSize (take (nat i) ?cs))"
  have o: "ofs = start + ?S" using good_path_head(4)[OF assms(1)] .
  have e: "ofs - start = ?S" using o by linarith
  have e2: "ofs + 1 = start + ?S + 1" using o by linarith
  have d: "i < int (length ?cs) \<and> \<not> isText (?cs ! nat i)
            \<and> ofs - start < off \<and> off < ofs - start + nodeSize (?cs ! nat i)
            \<and> good_path (?cs ! nat i) (ofs + 1) (off - (ofs - start) - 1) po rest"
    using assms by (simp only: good_path.simps if_False simp_thms) blast
  have d': "i < int (length ?cs) \<and> \<not> isText (?cs ! nat i)
            \<and> ?S < off \<and> off < ?S + nodeSize (?cs ! nat i)
            \<and> good_path (?cs ! nat i) (start + ?S + 1) (off - ?S - 1) po rest"
    using d unfolding e e2 .
  show "i < int (length ?cs)" "\<not> isText (?cs ! nat i)" "?S < off"
    "off < ?S + nodeSize (?cs ! nat i)"
    "good_path (?cs ! nat i) (start + ?S + 1) (off - ?S - 1) po rest"
    using d' by blast+
qed

lemma at_depth_drop:
  assumes "at_depth r d n off" and "path r ! d = e"
  shows "good_path n (pos r - off) off (parentOffset r) (e # drop (Suc d) (path r))"
proof -
  have "d < length (path r)" using assms(1) unfolding at_depth_def by blast
  then have "drop d (path r) = e # drop (Suc d) (path r)"
    using Cons_nth_drop_Suc[of d "path r"] assms(2) by simp
  moreover have "good_path n (pos r - off) off (parentOffset r) (drop d (path r))"
    using assms(1) unfolding at_depth_def by blast
  ultimately show ?thesis by simp
qed

lemma at_depth_entry:
  assumes "at_depth r d n off"
  obtains i ofs where "path r ! d = (n, i, ofs)" "0 \<le> i"
    "i \<le> int (length (content (node_content n)))"
    "ofs = pos r - off + sum_list (map nodeSize (take (nat i) (content (node_content n))))"
proof -
  obtain m i ofs where e: "path r ! d = (m, i, ofs)" by (cases "path r ! d") auto
  have g: "good_path n (pos r - off) off (parentOffset r) ((m, i, ofs) # drop (Suc d) (path r))"
    using at_depth_drop[OF assms e] .
  show ?thesis
    using that[of i ofs] e good_path_head[OF g] by simp
qed

lemma at_depth_step:
  assumes "at_depth r d n off" and "Suc d < length (path r)" and "path r ! d = (m, i, ofs)"
  shows "i < int (length (content (node_content n)))"
    and "\<not> isText (content (node_content n) ! nat i)"
    and "sum_list (map nodeSize (take (nat i) (content (node_content n)))) < off"
    and "off < sum_list (map nodeSize (take (nat i) (content (node_content n))))
                 + nodeSize (content (node_content n) ! nat i)"
    and "at_depth r (Suc d) (content (node_content n) ! nat i)
           (off - sum_list (map nodeSize (take (nat i) (content (node_content n)))) - 1)"
proof -
  let ?cs = "content (node_content n)"
  let ?S = "sum_list (map nodeSize (take (nat i) ?cs))"
  have g: "good_path n (pos r - off) off (parentOffset r) ((m, i, ofs) # drop (Suc d) (path r))"
    using at_depth_drop[OF assms(1,3)] .
  have ne: "drop (Suc d) (path r) \<noteq> []" using assms(2) by simp
  note gi = good_path_inner[OF g ne]
  show "i < int (length ?cs)" "\<not> isText (?cs ! nat i)" "?S < off"
    "off < ?S + nodeSize (?cs ! nat i)" using gi by blast+
  have eq: "pos r - off + ?S + 1 = pos r - (off - ?S - 1)" by linarith
  have "good_path (?cs ! nat i) (pos r - (off - ?S - 1)) (off - ?S - 1) (parentOffset r)
      (drop (Suc d) (path r))" using gi(5) unfolding eq .
  then show "at_depth r (Suc d) (?cs ! nat i) (off - ?S - 1)"
    using assms(2) unfolding at_depth_def by blast
qed

lemma at_depth_last:
  assumes "at_depth r d n off" and "Suc d = length (path r)" and "path r ! d = (m, i, ofs)"
  shows "textOffset r = off - sum_list (map nodeSize (take (nat i) (content (node_content n))))"
    and "parentOffset r = off"
    and "textOffset r = 0
         \<or> (i < int (length (content (node_content n)))
            \<and> isText (content (node_content n) ! nat i)
            \<and> 0 < textOffset r \<and> textOffset r < nodeSize (content (node_content n) ! nat i))"
proof -
  let ?cs = "content (node_content n)"
  let ?S = "sum_list (map nodeSize (take (nat i) ?cs))"
  have dr: "drop (Suc d) (path r) = []" using assms(2) by simp
  have g: "good_path n (pos r - off) off (parentOffset r) [(m, i, ofs)]"
    using at_depth_drop[OF assms(1,3)] unfolding dr .
  have ne: "path r \<noteq> []" using assms(2) by auto
  have "last (path r) = path r ! (length (path r) - 1)" using ne by (rule last_conv_nth)
  then have l: "last (path r) = (m, i, ofs)" using assms(2,3) by (metis diff_Suc_1)
  have o: "ofs = pos r - off + ?S" using good_path_head(4)[OF g] .
  have "textOffset r = pos r - ofs" using l ne by (simp add: textOffset_def)
  then show t: "textOffset r = off - ?S" using o by linarith
  show "parentOffset r = off" using good_path_last(1)[OF g] .
  have d: "off = ?S \<or> (i < int (length ?cs) \<and> isText (?cs ! nat i)
            \<and> ?S < off \<and> off < ?S + nodeSize (?cs ! nat i))"
    using good_path_last(2)[OF g] .
  show "textOffset r = 0
         \<or> (i < int (length ?cs) \<and> isText (?cs ! nat i)
            \<and> 0 < textOffset r \<and> textOffset r < nodeSize (?cs ! nat i))"
  proof (rule disjE[OF d])
    assume "off = ?S" then show ?thesis using t by simp
  next
    assume a: "i < int (length ?cs) \<and> isText (?cs ! nat i)
            \<and> ?S < off \<and> off < ?S + nodeSize (?cs ! nat i)"
    then have "0 < textOffset r" "textOffset r < nodeSize (?cs ! nat i)" using t by linarith+
    then show ?thesis using a by blast
  qed
qed

lemma js_slice_length:
  assumes "0 \<le> a" and "a \<le> b" and "b \<le> int (length s)"
  shows "int (length (js_slice s a b)) = b - a"
  using assms by (auto simp: js_slice_def Let_def min_def)

lemma nodeBefore_text:
  assumes "path r ! d = (n, i, ofs)" and "Suc d = length (path r)"
    and "i < int (length (content (node_content n)))"
    and "isText (content (node_content n) ! nat i)" and "0 \<le> i"
    and "0 < textOffset r" and "textOffset r < nodeSize (content (node_content n) ! nat i)"
  shows "\<exists>nb. nodeBefore r = Inr (Some nb) \<and> nodeSize nb = textOffset r"
proof -
  obtain ms s where c: "content (node_content n) ! nat i = TextNode ms s"
    using assms(4) by (cases "content (node_content n) ! nat i") auto
  have rd: "rp_depth r = int d" unfolding rp_depth_def using assms(2) by linarith
  have e: "rp_entry r (rp_depth r) = Some (n, i, ofs)"
    unfolding rd using assms(1,2) rp_entry_nth[of d r] by simp
  have ch: "Fragment_child (node_content n) i = Inr (TextNode ms s)"
    using assms(3,5) c by (simp add: Fragment_child_def)
  have len: "textOffset r < int (length s)" using assms(7) c by simp
  have "int (length (js_slice s 0 (textOffset r))) = textOffset r"
    using js_slice_length[of 0 "textOffset r" s] assms(6) len by simp
  then show ?thesis
    using e ch assms(6) len by (simp add: nodeBefore_def Let_def)
qed

lemma nodeAfter_text:
  assumes "path r ! d = (n, i, ofs)" and "Suc d = length (path r)"
    and "i < int (length (content (node_content n)))"
    and "isText (content (node_content n) ! nat i)" and "0 \<le> i"
    and "0 < textOffset r" and "textOffset r < nodeSize (content (node_content n) ! nat i)"
  shows "\<exists>na. nodeAfter r = Inr (Some na)
           \<and> nodeSize na = nodeSize (content (node_content n) ! nat i) - textOffset r"
proof -
  obtain ms s where c: "content (node_content n) ! nat i = TextNode ms s"
    using assms(4) by (cases "content (node_content n) ! nat i") auto
  have rd: "rp_depth r = int d" unfolding rp_depth_def using assms(2) by linarith
  have e: "rp_entry r (rp_depth r) = Some (n, i, ofs)"
    unfolding rd using assms(1,2) rp_entry_nth[of d r] by simp
  have ch: "Fragment_child (node_content n) i = Inr (TextNode ms s)"
    using assms(3,5) c by (simp add: Fragment_child_def)
  have len: "textOffset r < int (length s)" using assms(7) c by simp
  have "int (length (js_slice s (textOffset r) (int (length s)))) = int (length s) - textOffset r"
    using js_slice_length[of "textOffset r" "int (length s)" s] assms(6) len by simp
  then show ?thesis
    using e ch assms(3,6) len c by (simp add: nodeAfter_def Let_def childCount_def)
qed


lemma sum_take_drop:
  "sum_list (map nodeSize xs)
     = sum_list (map nodeSize (take k xs)) + sum_list (map nodeSize (drop k xs))"
  by (metis append_take_drop_id map_append sum_list.append)

lemma sum_drop_Suc:
  assumes "k < length xs"
  shows "sum_list (map nodeSize (drop k xs))
     = nodeSize (xs ! k) + sum_list (map nodeSize (drop (Suc k) xs))"
  using Cons_nth_drop_Suc[OF assms] by (metis list.simps(9) sum_list.Cons)

lemma rp_node_nth: "path r ! d = (n, i, ofs) \<Longrightarrow> d < length (path r) \<Longrightarrow> rp_node r (int d) = Some n"
  by (simp add: rp_node_def rp_entry_nth)

lemma rp_index_nth: "path r ! d = (n, i, ofs) \<Longrightarrow> d < length (path r) \<Longrightarrow> rp_index r (int d) = Some i"
  by (simp add: rp_index_def rp_entry_nth)

lemma addRange_before:
  assumes ad: "at_depth r d n off" and e: "path r ! d = (n, i, ofs)"
  shows "\<exists>t'. addRange None (Some r) (int d) t = Inr t'
     \<and> sum_list (map nodeSize t') = sum_list (map nodeSize t)
         + sum_list (map nodeSize (take (nat i) (content (node_content n))))
         + (if Suc d = length (path r) then textOffset r else 0)"
proof -
  let ?cs = "content (node_content n)"
  have dl: "d < length (path r)" using ad unfolding at_depth_def by blast
  obtain i' ofs' where e': "path r ! d = (n, i', ofs')" and i0': "0 \<le> i'"
    and il': "i' \<le> int (length ?cs)"
    by (rule at_depth_entry[OF ad])
  have i0: "0 \<le> i" and il: "i \<le> int (length ?cs)" using e e' i0' il' by simp_all
  have rn: "rp_node r (int d) = Some n" using rp_node_nth[OF e dl] .
  have ri: "rp_index r (int d) = Some i" using rp_index_nth[OF e dl] .
  obtain t2 where l: "addRange_loop n 0 i t = Inr t2"
    and s2: "sum_list (map nodeSize t2) = sum_list (map nodeSize t)
        + sum_list (map nodeSize (drop (nat 0) (take (nat i) ?cs)))"
    using addRange_loop_size[of 0 i n t] i0 il by auto
  have s2': "sum_list (map nodeSize t2) = sum_list (map nodeSize t)
        + sum_list (map nodeSize (take (nat i) ?cs))" using s2 by simp
  show ?thesis
  proof (cases "Suc d = length (path r) \<and> textOffset r \<noteq> 0")
    case False
    then have c: "\<not> (rp_depth r = int d \<and> textOffset r \<noteq> 0)"
      using rp_depth_eq[OF dl] by blast
    have "addRange None (Some r) (int d) t = Inr t2"
      using rn ri l c by (auto simp add: addRange_def)
    then show ?thesis using s2' False by auto
  next
    case True
    then have c: "rp_depth r = int d \<and> textOffset r \<noteq> 0"
      using rp_depth_eq[OF dl] by blast
    have sd: "Suc d = length (path r)" using True by blast
    note al = at_depth_last[OF ad sd e]
    have tx: "i < int (length ?cs) \<and> isText (?cs ! nat i)
            \<and> 0 < textOffset r \<and> textOffset r < nodeSize (?cs ! nat i)"
      using al(3) True by blast
    obtain nb where nb: "nodeBefore r = Inr (Some nb)" and nbs: "nodeSize nb = textOffset r"
      using nodeBefore_text[OF e sd _ _ i0] tx by blast
    have "addRange None (Some r) (int d) t = Inr (addNode nb t2)"
      using rn ri l c nb by (simp add: addRange_def)
    then show ?thesis using s2' sd nbs addNode_size[of nb t2] by simp
  qed
qed

lemma addRange_after:
  assumes ad: "at_depth r d n off" and e: "path r ! d = (n, i, ofs)"
  shows "\<exists>t'. addRange (Some r) None (int d) t = Inr t'
     \<and> sum_list (map nodeSize t') = sum_list (map nodeSize t)
         + (sum_list (map nodeSize (content (node_content n)))
            - sum_list (map nodeSize (take (nat i) (content (node_content n))))
            - (if Suc d = length (path r) then textOffset r
               else nodeSize (content (node_content n) ! nat i)))"
proof -
  let ?cs = "content (node_content n)"
  let ?S = "sum_list (map nodeSize (take (nat i) ?cs))"
  have dl: "d < length (path r)" using ad unfolding at_depth_def by blast
  obtain i' ofs' where e': "path r ! d = (n, i', ofs')" and i0': "0 \<le> i'"
    and il': "i' \<le> int (length ?cs)"
    by (rule at_depth_entry[OF ad])
  have i0: "0 \<le> i" and il: "i \<le> int (length ?cs)" using e e' i0' il' by simp_all
  have rn: "rp_node r (int d) = Some n" using rp_node_nth[OF e dl] .
  have ri: "rp_index r (int d) = Some i" using rp_index_nth[OF e dl] .
  have whole: "sum_list (map nodeSize ?cs) = ?S + sum_list (map nodeSize (drop (nat i) ?cs))"
    by (rule sum_take_drop)
  have loop: "\<And>si u. 0 \<le> si \<Longrightarrow> si \<le> int (length ?cs) \<Longrightarrow>
      \<exists>t2. addRange_loop n si (int (length ?cs)) u = Inr t2
        \<and> sum_list (map nodeSize t2) = sum_list (map nodeSize u)
            + sum_list (map nodeSize (drop (nat si) ?cs))"
  proof -
    fix si u assume "0 \<le> si" "si \<le> int (length ?cs)"
    then show "\<exists>t2. addRange_loop n si (int (length ?cs)) u = Inr t2
        \<and> sum_list (map nodeSize t2) = sum_list (map nodeSize u)
            + sum_list (map nodeSize (drop (nat si) ?cs))"
      using addRange_loop_size[of si "int (length ?cs)" n u] by simp
  qed
  show ?thesis
  proof (cases "Suc d = length (path r)")
    case False
    then have deeper: "Suc d < length (path r)" using dl by linarith
    then have c: "rp_depth r > int d" using rp_depth_gt by blast
    note st = at_depth_step[OF ad deeper e]
    have il2: "i + 1 \<le> int (length ?cs)" using st(1) by linarith
    obtain t2 where l: "addRange_loop n (i + 1) (int (length ?cs)) t = Inr t2"
      and s2: "sum_list (map nodeSize t2) = sum_list (map nodeSize t)
            + sum_list (map nodeSize (drop (nat (i + 1)) ?cs))"
      using loop[of "i + 1" t] i0 il2 by auto
    have ni: "nat (i + 1) = Suc (nat i)" using i0 by linarith
    have "nat i < length ?cs" using st(1) i0 by linarith
    then have "sum_list (map nodeSize (drop (nat i) ?cs))
       = nodeSize (?cs ! nat i) + sum_list (map nodeSize (drop (Suc (nat i)) ?cs))"
      by (rule sum_drop_Suc)
    then have sz: "sum_list (map nodeSize t2) = sum_list (map nodeSize t)
         + (sum_list (map nodeSize ?cs) - ?S - nodeSize (?cs ! nat i))"
      using s2 whole unfolding ni by linarith
    have "addRange (Some r) None (int d) t = Inr t2"
      using rn ri l c by (simp add: addRange_def childCount_def)
    then show ?thesis using sz False by auto
  next
    case sd: True
    then have c: "\<not> rp_depth r > int d" using rp_depth_gt[of d r] by linarith
    note al = at_depth_last[OF ad sd e]
    show ?thesis
    proof (cases "textOffset r = 0")
      case True
      obtain t2 where l: "addRange_loop n i (int (length ?cs)) t = Inr t2"
        and s2: "sum_list (map nodeSize t2) = sum_list (map nodeSize t)
            + sum_list (map nodeSize (drop (nat i) ?cs))"
        using loop[of i t] i0 il by auto
      have "addRange (Some r) None (int d) t = Inr t2"
        using rn ri l c True by (simp add: addRange_def childCount_def)
      moreover have "sum_list (map nodeSize t2) = sum_list (map nodeSize t)
         + (sum_list (map nodeSize ?cs) - ?S - textOffset r)"
        using s2 whole True by linarith
      ultimately show ?thesis using sd by auto
    next
      case False
      then have tx: "i < int (length ?cs) \<and> isText (?cs ! nat i)
            \<and> 0 < textOffset r \<and> textOffset r < nodeSize (?cs ! nat i)"
        using al(3) by blast
      obtain na where na: "nodeAfter r = Inr (Some na)"
        and nas: "nodeSize na = nodeSize (?cs ! nat i) - textOffset r"
        using nodeAfter_text[OF e sd _ _ i0] tx by blast
      have il2: "i + 1 \<le> int (length ?cs)" using tx by linarith
      obtain t2 where l: "addRange_loop n (i + 1) (int (length ?cs)) (addNode na t) = Inr t2"
        and s2: "sum_list (map nodeSize t2) = sum_list (map nodeSize (addNode na t))
            + sum_list (map nodeSize (drop (nat (i + 1)) ?cs))"
        using loop[of "i + 1" "addNode na t"] i0 il2 by auto
      have ni: "nat (i + 1) = Suc (nat i)" using i0 by linarith
      have "nat i < length ?cs" using tx i0 by linarith
      then have "sum_list (map nodeSize (drop (nat i) ?cs))
         = nodeSize (?cs ! nat i) + sum_list (map nodeSize (drop (Suc (nat i)) ?cs))"
        by (rule sum_drop_Suc)
      then have sz: "sum_list (map nodeSize t2) = sum_list (map nodeSize t)
           + (sum_list (map nodeSize ?cs) - ?S - textOffset r)"
        using s2 whole nas addNode_size[of na t] unfolding ni by linarith
      have "addRange (Some r) None (int d) t = Inr t2"
        using rn ri l c False na by (simp add: addRange_def childCount_def)
      then show ?thesis using sz sd by auto
    qed
  qed
qed

subsection \<open>\<open>replaceTwoWay\<close>\<close>

lemma replaceTwoWay_last:
  assumes "\<not> rp_depth rf > d" and "replaceTwoWay schema rf rt d = Inr f"
  shows "\<exists>c1 c3. addRange None (Some rf) d [] = Inr c1
           \<and> addRange (Some rt) None d c1 = Inr c3 \<and> f = Fragment_new c3 None"
  using assms(2) assms(1)
  by (subst (asm) replaceTwoWay.simps) (auto split: sum.splits)

lemma replaceTwoWay_deeper:
  assumes "rp_depth rf > d" and "replaceTwoWay schema rf rt d = Inr f"
  shows "\<exists>c1 type inner closed c3. addRange None (Some rf) d [] = Inr c1
           \<and> joinable schema rf rt (d + 1) = Inr type
           \<and> replaceTwoWay schema rf rt (d + 1) = Inr inner
           \<and> close schema type inner = Inr closed
           \<and> addRange (Some rt) None d (addNode closed c1) = Inr c3
           \<and> f = Fragment_new c3 None"
  using assms(2) assms(1)
  by (subst (asm) replaceTwoWay.simps) (auto split: sum.splits)

lemma joinable_node:
  assumes "joinable schema a b d = Inr n"
  shows "rp_node a d = Some n"
  using assms by (auto simp: joinable_def split: sum.splits option.splits)

lemma close_copy:
  assumes "close schema n c = Inr m"
  shows "m = Node_copy n c"
  using assms by (auto simp: close_def split: if_splits)

lemma nodeSize_copy:
  assumes "\<not> isText n" and "\<not> node_isLeaf n"
  shows "nodeSize (Node_copy n c) = 2 + fsize c"
  using assms by (cases n) auto

lemma content_copy:
  assumes "\<not> isText n"
  shows "node_content (Node_copy n c) = c"
  using assms by (cases n) auto

lemma fsize_new: "fsize (Fragment_new cs None) = sum_list (map nodeSize cs)"
  by (simp add: Fragment_new_def)

lemma valid_content_sum:
  "valid_fragment (node_content n)
     \<Longrightarrow> fsize (node_content n) = sum_list (map nodeSize (content (node_content n)))"
  by (simp add: valid_fragment_iff)

text \<open>What a position that goes deeper than depth d finds at depth d + 1.\<close>

lemma at_depth_child:
  assumes ad: "at_depth r d n off" and deeper: "Suc d < length (path r)"
    and e: "path r ! d = (n, i, ofs)" and v: "valid_fragment (node_content n)"
  shows "rp_node r (int d + 1) = Some (content (node_content n) ! nat i)"
    and "valid_node (content (node_content n) ! nat i)"
    and "\<not> isText (content (node_content n) ! nat i)"
    and "\<not> node_isLeaf (content (node_content n) ! nat i)"
    and "nodeSize (content (node_content n) ! nat i)
           = 2 + fsize (node_content (content (node_content n) ! nat i))"
proof -
  let ?c = "content (node_content n) ! nat i"
  note st = at_depth_step[OF ad deeper e]
  obtain i' ofs' where e': "path r ! Suc d = (?c, i', ofs')"
    by (rule at_depth_entry[OF st(5)])
  have "rp_node r (int (Suc d)) = Some ?c" using rp_node_nth[OF e' deeper] .
  then show "rp_node r (int d + 1) = Some ?c" by (simp add: add.commute)
  obtain i0 where "0 \<le> i" using at_depth_entry[OF ad] e by (metis Pair_inject)
  then have "nat i < length (content (node_content n))" using st(1) by linarith
  then show vc: "valid_node ?c" using valid_child[OF v] by blast
  show nt: "\<not> isText ?c" using st(2) .
  have "1 < nodeSize ?c" using st(3,4) by linarith
  then show "\<not> node_isLeaf ?c" "nodeSize ?c = 2 + fsize (node_content ?c)"
    using nodeSize_inner[OF vc nt] by blast+
qed

lemma replaceTwoWay_size:
  assumes "at_depth rf d nf offf" and "at_depth rt d nt offt"
    and "length (path rf) = length (path rt)"
    and "valid_fragment (node_content nf)" and "valid_fragment (node_content nt)"
    and "replaceTwoWay schema rf rt (int d) = Inr f"
  shows "fsize f = offf + (fsize (node_content nt) - offt)"
  using assms
proof (induction "length (path rf) - d" arbitrary: d nf nt offf offt f)
  case 0
  then show ?case by (simp add: at_depth_def)
next
  case (Suc k)
  let ?csf = "content (node_content nf)"
  let ?cst = "content (node_content nt)"
  obtain i ofs where ef: "path rf ! d = (nf, i, ofs)"
    by (rule at_depth_entry[OF Suc.prems(1)])
  obtain j oft where et: "path rt ! d = (nt, j, oft)"
    by (rule at_depth_entry[OF Suc.prems(2)])
  let ?Sf = "sum_list (map nodeSize (take (nat i) ?csf))"
  let ?St = "sum_list (map nodeSize (take (nat j) ?cst))"
  have dl: "d < length (path rf)" using Suc.prems(1) unfolding at_depth_def by blast
  have ct: "fsize (node_content nt) = sum_list (map nodeSize ?cst)"
    using valid_content_sum[OF Suc.prems(5)] .
  show ?case
  proof (cases "Suc d = length (path rf)")
    case True
    then have lt: "Suc d = length (path rt)" using Suc.prems(3) by simp
    have nd: "\<not> rp_depth rf > int d" using rp_depth_gt[of d rf] True by linarith
    obtain c1 c3 where a1: "addRange None (Some rf) (int d) [] = Inr c1"
      and a3: "addRange (Some rt) None (int d) c1 = Inr c3" and f: "f = Fragment_new c3 None"
      using replaceTwoWay_last[OF nd Suc.prems(6)] by blast
    have s1: "sum_list (map nodeSize c1) = ?Sf + textOffset rf"
      using addRange_before[OF Suc.prems(1) ef, of "[]"] a1 True by auto
    have s3: "sum_list (map nodeSize c3)
        = sum_list (map nodeSize c1) + (sum_list (map nodeSize ?cst) - ?St - textOffset rt)"
      using addRange_after[OF Suc.prems(2) et, of c1] a3 lt by auto
    have "textOffset rf = offf - ?Sf" using at_depth_last(1)[OF Suc.prems(1) True ef] .
    moreover have "textOffset rt = offt - ?St" using at_depth_last(1)[OF Suc.prems(2) lt et] .
    moreover have "fsize f = sum_list (map nodeSize c3)" using f fsize_new[of c3] by simp
    ultimately show ?thesis using s1 s3 ct by linarith
  next
    case False
    then have df: "Suc d < length (path rf)" using dl by linarith
    then have dt: "Suc d < length (path rt)" using Suc.prems(3) by simp
    have gd: "rp_depth rf > int d" using rp_depth_gt[of d rf] df by blast
    obtain c1 type inner closed c3 where a1: "addRange None (Some rf) (int d) [] = Inr c1"
      and jn: "joinable schema rf rt (int d + 1) = Inr type"
      and tw: "replaceTwoWay schema rf rt (int d + 1) = Inr inner"
      and cl: "close schema type inner = Inr closed"
      and a3: "addRange (Some rt) None (int d) (addNode closed c1) = Inr c3"
      and f: "f = Fragment_new c3 None"
      using replaceTwoWay_deeper[OF gd Suc.prems(6)] by blast
    let ?cf = "?csf ! nat i"
    let ?ct = "?cst ! nat j"
    note stf = at_depth_step[OF Suc.prems(1) df ef]
    note stt = at_depth_step[OF Suc.prems(2) dt et]
    note chf = at_depth_child[OF Suc.prems(1) df ef Suc.prems(4)]
    note cht = at_depth_child[OF Suc.prems(2) dt et Suc.prems(5)]
    have ty: "type = ?cf" using joinable_node[OF jn] chf(1) by simp
    have k: "k = length (path rf) - Suc d" using Suc.hyps(2) by linarith
    have tw': "replaceTwoWay schema rf rt (int (Suc d)) = Inr inner"
      using tw by (simp add: add.commute)
    have inner: "fsize inner = (offf - ?Sf - 1) + (fsize (node_content ?ct) - (offt - ?St - 1))"
      using Suc.hyps(1)[OF k stf(5) stt(5) Suc.prems(3) valid_node_content[OF chf(2)]
          valid_node_content[OF cht(2)] tw'] .
    have cs: "nodeSize closed = 2 + fsize inner"
      using close_copy[OF cl] ty nodeSize_copy[OF chf(3,4)] by simp
    have s1: "sum_list (map nodeSize c1) = ?Sf"
      using addRange_before[OF Suc.prems(1) ef, of "[]"] a1 False by auto
    have s3: "sum_list (map nodeSize c3) = sum_list (map nodeSize (addNode closed c1))
         + (sum_list (map nodeSize ?cst) - ?St - nodeSize ?ct)"
      using addRange_after[OF Suc.prems(2) et, of "addNode closed c1"] a3 dt by auto
    have "fsize f = sum_list (map nodeSize c3)" using f fsize_new[of c3] by simp
    then show ?thesis
      using s1 s3 cs inner ct addNode_size[of closed c1] cht(5) by linarith
  qed
qed

subsection \<open>Paths down the first and the last children\<close>

lemma sum_take_ge:
  assumes "list_all valid_node cs" and "k \<le> length cs"
  shows "int k \<le> sum_list (map nodeSize (take k cs))"
  using assms
proof (induction cs arbitrary: k)
  case Nil
  then show ?case by simp
next
  case (Cons c cs)
  show ?case
  proof (cases k)
    case 0
    then show ?thesis by simp
  next
    case (Suc m)
    have "1 \<le> nodeSize c" using Cons.prems(1) by (simp add: valid_node_size)
    moreover have "int m \<le> sum_list (map nodeSize (take m cs))"
      using Cons.IH[of m] Cons.prems Suc by simp
    ultimately show ?thesis using Suc by simp
  qed
qed

lemma sum_drop_ge:
  assumes "list_all valid_node cs"
  shows "int (length cs - k) \<le> sum_list (map nodeSize (drop k cs))"
proof -
  have "list_all valid_node (drop k cs)"
    using assms by (auto simp: list_all_iff dest: in_set_dropD)
  then show ?thesis
    using sum_take_ge[of "drop k cs" "length (drop k cs)"] by simp
qed

lemma valid_content_children:
  "valid_fragment (node_content n) \<Longrightarrow> list_all valid_node (content (node_content n))"
  by (simp add: valid_fragment_iff)

lemma at_depth_index:
  assumes "at_depth r d n off" and "path r ! d = (m, i, ofs)"
  shows "m = n" and "0 \<le> i" and "i \<le> int (length (content (node_content n)))"
proof -
  obtain i' ofs' where e': "path r ! d = (n, i', ofs')" and i0': "0 \<le> i'"
    and il': "i' \<le> int (length (content (node_content n)))"
    by (rule at_depth_entry[OF assms(1)])
  show "m = n" "0 \<le> i" "i \<le> int (length (content (node_content n)))"
    using assms(2) e' i0' il' by simp_all
qed

text \<open>Every level of a path costs at least one token on either side of the position.\<close>

lemma at_depth_lower:
  assumes "at_depth r d n off" and "valid_fragment (node_content n)"
  shows "int (length (path r)) - 1 - int d \<le> off"
  using assms
proof (induction "length (path r) - d" arbitrary: d n off)
  case 0
  then show ?case by (simp add: at_depth_def)
next
  case (Suc k)
  let ?cs = "content (node_content n)"
  obtain i ofs where e: "path r ! d = (n, i, ofs)"
    by (rule at_depth_entry[OF Suc.prems(1)])
  note ix = at_depth_index[OF Suc.prems(1) e]
  let ?S = "sum_list (map nodeSize (take (nat i) ?cs))"
  have S0: "0 \<le> ?S"
    using sum_take_ge[OF valid_content_children[OF Suc.prems(2)], of "nat i"] ix by linarith
  have dl: "d < length (path r)" using Suc.prems(1) unfolding at_depth_def by blast
  show ?case
  proof (cases "Suc d = length (path r)")
    case True
    note al = at_depth_last[OF Suc.prems(1) True e]
    have "0 \<le> textOffset r" using al(3) by linarith
    then show ?thesis using al(1) S0 True by linarith
  next
    case False
    then have deeper: "Suc d < length (path r)" using dl by linarith
    note st = at_depth_step[OF Suc.prems(1) deeper e]
    note ch = at_depth_child[OF Suc.prems(1) deeper e Suc.prems(2)]
    have k: "k = length (path r) - Suc d" using Suc.hyps(2) by linarith
    have "int (length (path r)) - 1 - int (Suc d) \<le> off - ?S - 1"
      using Suc.hyps(1)[OF k st(5) valid_node_content[OF ch(2)]] .
    then show ?thesis using S0 by simp
  qed
qed

lemma sum_take_Suc_le:
  assumes "list_all valid_node cs" and "k < length cs"
  shows "sum_list (map nodeSize (take k cs)) + nodeSize (cs ! k) \<le> sum_list (map nodeSize cs)"
proof -
  have a: "sum_list (map nodeSize cs)
     = sum_list (map nodeSize (take k cs)) + sum_list (map nodeSize (drop k cs))"
    by (rule sum_take_drop)
  have b: "sum_list (map nodeSize (drop k cs))
     = nodeSize (cs ! k) + sum_list (map nodeSize (drop (Suc k) cs))"
    using assms(2) by (rule sum_drop_Suc)
  have "0 \<le> sum_list (map nodeSize (drop (Suc k) cs))"
    using sum_drop_ge[OF assms(1), of "Suc k"] by linarith
  then show ?thesis using a b by linarith
qed

lemma at_depth_upper:
  assumes "at_depth r d n off" and "valid_fragment (node_content n)"
  shows "int (length (path r)) - 1 - int d \<le> fsize (node_content n) - off"
  using assms
proof (induction "length (path r) - d" arbitrary: d n off)
  case 0
  then show ?case by (simp add: at_depth_def)
next
  case (Suc k)
  let ?cs = "content (node_content n)"
  obtain i ofs where e: "path r ! d = (n, i, ofs)"
    by (rule at_depth_entry[OF Suc.prems(1)])
  note ix = at_depth_index[OF Suc.prems(1) e]
  let ?S = "sum_list (map nodeSize (take (nat i) ?cs))"
  note vc = valid_content_children[OF Suc.prems(2)]
  have cs: "fsize (node_content n) = sum_list (map nodeSize ?cs)"
    using valid_content_sum[OF Suc.prems(2)] .
  have dl: "d < length (path r)" using Suc.prems(1) unfolding at_depth_def by blast
  show ?case
  proof (cases "Suc d = length (path r)")
    case True
    note al = at_depth_last[OF Suc.prems(1) True e]
    show ?thesis
    proof (cases "textOffset r = 0")
      case z: True
      have "?S \<le> sum_list (map nodeSize ?cs)"
        using sum_take_drop[of ?cs "nat i"] sum_drop_ge[OF vc, of "nat i"] by linarith
      then show ?thesis using al(1) z cs True by linarith
    next
      case False
      then have tx: "i < int (length ?cs)" "textOffset r < nodeSize (?cs ! nat i)"
        using al(3) by blast+
      have "nat i < length ?cs" using tx(1) ix by linarith
      then have "?S + nodeSize (?cs ! nat i) \<le> sum_list (map nodeSize ?cs)"
        using sum_take_Suc_le[OF vc] by blast
      then show ?thesis using al(1) tx(2) cs True by linarith
    qed
  next
    case False
    then have deeper: "Suc d < length (path r)" using dl by linarith
    note st = at_depth_step[OF Suc.prems(1) deeper e]
    note ch = at_depth_child[OF Suc.prems(1) deeper e Suc.prems(2)]
    have k: "k = length (path r) - Suc d" using Suc.hyps(2) by linarith
    have ih: "int (length (path r)) - 1 - int (Suc d)
        \<le> fsize (node_content (?cs ! nat i)) - (off - ?S - 1)"
      using Suc.hyps(1)[OF k st(5) valid_node_content[OF ch(2)]] .
    have "nat i < length ?cs" using st(1) ix by linarith
    then have "?S + nodeSize (?cs ! nat i) \<le> sum_list (map nodeSize ?cs)"
      using sum_take_Suc_le[OF vc] by blast
    then show ?thesis using ih ch(5) cs by simp
  qed
qed

text \<open>
  A position whose offset is exactly its remaining depth runs down the first children;
  one whose distance from the end of the content is exactly its remaining depth runs
  down the last children.
\<close>

lemma sum_take_zero:
  assumes "list_all valid_node cs" and "k \<le> length cs"
    and "sum_list (map nodeSize (take k cs)) \<le> 0"
  shows "k = 0"
  using sum_take_ge[OF assms(1,2)] assms(3) by linarith

lemma at_depth_first:
  assumes ad: "at_depth r d n off" and v: "valid_fragment (node_content n)"
    and o: "off = int (length (path r)) - 1 - int d" and e: "path r ! d = (m, i, ofs)"
  shows "i = 0"
    and "Suc d = length (path r) \<Longrightarrow> textOffset r = 0"
    and "Suc d < length (path r) \<Longrightarrow>
           at_depth r (Suc d) (content (node_content n) ! 0) (int (length (path r)) - 1 - int (Suc d))"
proof -
  let ?cs = "content (node_content n)"
  let ?S = "sum_list (map nodeSize (take (nat i) ?cs))"
  note ix = at_depth_index[OF ad e]
  have e': "path r ! d = (n, i, ofs)" using e ix(1) by simp
  note vc = valid_content_children[OF v]
  have il: "nat i \<le> length ?cs" using ix by linarith
  have S0: "0 \<le> ?S" using sum_take_ge[OF vc il] by linarith
  have dl: "d < length (path r)" using ad unfolding at_depth_def by blast
  have main: "?S \<le> 0 \<and> (Suc d = length (path r) \<longrightarrow> textOffset r = 0)"
  proof (cases "Suc d = length (path r)")
    case True
    note al = at_depth_last[OF ad True e']
    have "0 \<le> textOffset r" using al(3) by linarith
    then show ?thesis using al(1) S0 True o by linarith
  next
    case False
    then have deeper: "Suc d < length (path r)" using dl by linarith
    note st = at_depth_step[OF ad deeper e']
    note ch = at_depth_child[OF ad deeper e' v]
    have "int (length (path r)) - 1 - int (Suc d) \<le> off - ?S - 1"
      using at_depth_lower[OF st(5) valid_node_content[OF ch(2)]] .
    then show ?thesis using o False by simp
  qed
  have "nat i = 0" using sum_take_zero[OF vc il] main by blast
  then show i0: "i = 0" using ix by linarith
  show "Suc d = length (path r) \<Longrightarrow> textOffset r = 0" using main by blast
  show "Suc d < length (path r) \<Longrightarrow>
           at_depth r (Suc d) (?cs ! 0) (int (length (path r)) - 1 - int (Suc d))"
  proof -
    assume deeper: "Suc d < length (path r)"
    note st = at_depth_step[OF ad deeper e']
    have "?S = 0" using i0 by simp
    then have eq: "off - ?S - 1 = int (length (path r)) - 1 - int (Suc d)" using o by simp
    have "at_depth r (Suc d) (?cs ! nat i) (int (length (path r)) - 1 - int (Suc d))"
      using st(5) unfolding eq .
    then show ?thesis unfolding i0 by simp
  qed
qed

lemma sum_drop_zero:
  assumes "list_all valid_node cs" and "sum_list (map nodeSize (drop k cs)) \<le> 0"
  shows "length cs \<le> k"
  using sum_drop_ge[OF assms(1), of k] assms(2) by linarith

lemma at_depth_final:
  assumes ad: "at_depth r d n off" and v: "valid_fragment (node_content n)"
    and o: "fsize (node_content n) - off = int (length (path r)) - 1 - int d"
    and e: "path r ! d = (m, i, ofs)"
  shows "Suc d = length (path r) \<Longrightarrow> textOffset r = 0 \<and> i = int (length (content (node_content n)))"
    and "Suc d < length (path r) \<Longrightarrow>
           i = int (length (content (node_content n))) - 1
           \<and> at_depth r (Suc d) (content (node_content n) ! nat i)
                (fsize (node_content (content (node_content n) ! nat i))
                 - (int (length (path r)) - 1 - int (Suc d)))"
proof -
  let ?cs = "content (node_content n)"
  let ?S = "sum_list (map nodeSize (take (nat i) ?cs))"
  note ix = at_depth_index[OF ad e]
  have e': "path r ! d = (n, i, ofs)" using e ix(1) by simp
  note vc = valid_content_children[OF v]
  have cs: "fsize (node_content n) = sum_list (map nodeSize ?cs)"
    using valid_content_sum[OF v] .
  have whole: "sum_list (map nodeSize ?cs) = ?S + sum_list (map nodeSize (drop (nat i) ?cs))"
    by (rule sum_take_drop)
  show "Suc d = length (path r) \<Longrightarrow> textOffset r = 0 \<and> i = int (length ?cs)"
  proof -
    assume last: "Suc d = length (path r)"
    note al = at_depth_last[OF ad last e']
    have oc: "off = sum_list (map nodeSize ?cs)" using o cs last by linarith
    have tz: "textOffset r = 0"
    proof (rule ccontr)
      assume "textOffset r \<noteq> 0"
      then have tx: "i < int (length ?cs)" "textOffset r < nodeSize (?cs ! nat i)"
        using al(3) by blast+
      have "nat i < length ?cs" using tx(1) ix by linarith
      then have "?S + nodeSize (?cs ! nat i) \<le> sum_list (map nodeSize ?cs)"
        using sum_take_Suc_le[OF vc] by blast
      then show False using al(1) tx(2) oc by linarith
    qed
    then have "sum_list (map nodeSize (drop (nat i) ?cs)) \<le> 0"
      using al(1) oc whole by linarith
    then have "length ?cs \<le> nat i" using sum_drop_zero[OF vc] by blast
    then show ?thesis using tz ix by linarith
  qed
  show "Suc d < length (path r) \<Longrightarrow>
           i = int (length ?cs) - 1
           \<and> at_depth r (Suc d) (?cs ! nat i)
                (fsize (node_content (?cs ! nat i)) - (int (length (path r)) - 1 - int (Suc d)))"
  proof -
    assume deeper: "Suc d < length (path r)"
    note st = at_depth_step[OF ad deeper e']
    note ch = at_depth_child[OF ad deeper e' v]
    have il: "nat i < length ?cs" using st(1) ix by linarith
    have up: "int (length (path r)) - 1 - int (Suc d)
        \<le> fsize (node_content (?cs ! nat i)) - (off - ?S - 1)"
      using at_depth_upper[OF st(5) valid_node_content[OF ch(2)]] .
    have d1: "sum_list (map nodeSize (drop (nat i) ?cs))
       = nodeSize (?cs ! nat i) + sum_list (map nodeSize (drop (Suc (nat i)) ?cs))"
      using il by (rule sum_drop_Suc)
    have rest0: "0 \<le> sum_list (map nodeSize (drop (Suc (nat i)) ?cs))"
      using sum_drop_ge[OF vc, of "Suc (nat i)"] by linarith
    have "sum_list (map nodeSize (drop (Suc (nat i)) ?cs)) \<le> 0"
      using up o cs whole d1 ch(5) by simp
    then have "length ?cs \<le> Suc (nat i)" using sum_drop_zero[OF vc] by blast
    then have i1: "i = int (length ?cs) - 1" using il ix by linarith
    have "sum_list (map nodeSize (drop (Suc (nat i)) ?cs)) = 0"
      using \<open>length ?cs \<le> Suc (nat i)\<close> by simp
    then have eq: "off - ?S - 1
       = fsize (node_content (?cs ! nat i)) - (int (length (path r)) - 1 - int (Suc d))"
      using o cs whole d1 ch(5) by simp
    have "at_depth r (Suc d) (?cs ! nat i)
       (fsize (node_content (?cs ! nat i)) - (int (length (path r)) - 1 - int (Suc d)))"
      using st(5) unfolding eq .
    then show ?thesis using i1 by blast
  qed
qed

lemma sum_drop_take:
  assumes "a \<le> b"
  shows "sum_list (map nodeSize (drop a (take b cs)))
     = sum_list (map nodeSize (take b cs)) - sum_list (map nodeSize (take a cs))"
proof -
  have "take a (take b cs) = take a cs" using assms by (simp add: min_def)
  then show ?thesis using sum_take_drop[of "take b cs" a] by simp
qed

lemma sum_take_last:
  assumes "Suc k = length cs"
  shows "sum_list (map nodeSize (take k cs)) = sum_list (map nodeSize cs) - nodeSize (cs ! k)"
proof -
  have "k < length cs" using assms by linarith
  then have "sum_list (map nodeSize (drop k cs))
     = nodeSize (cs ! k) + sum_list (map nodeSize (drop (Suc k) cs))" by (rule sum_drop_Suc)
  then show ?thesis using sum_take_drop[of cs k] assms by simp
qed

lemma sum_take_one:
  assumes "0 < length cs"
  shows "sum_list (map nodeSize (take (Suc 0) cs)) = nodeSize (cs ! 0)"
  using assms by (cases cs) auto

lemma addRange_between:
  assumes s: "at_depth s d w os" and os: "os = int (length (path s)) - 1 - int d"
    and e: "at_depth e d w oe"
    and oe: "fsize (node_content w) - oe = int (length (path e)) - 1 - int d"
    and v: "valid_fragment (node_content w)"
    and es: "path s ! d = (w, i, ofs)" and ee: "path e ! d = (w, j, ofe)"
    and two: "Suc d < length (path s) \<Longrightarrow> Suc d < length (path e) \<Longrightarrow> i \<noteq> j"
  shows "\<exists>t'. addRange (Some s) (Some e) (int d) t = Inr t'
     \<and> sum_list (map nodeSize t') = sum_list (map nodeSize t)
         + (fsize (node_content w)
            - (if Suc d < length (path s) then nodeSize (content (node_content w) ! 0) else 0)
            - (if Suc d < length (path e) then nodeSize (content (node_content w) ! nat j) else 0))"
proof -
  let ?cs = "content (node_content w)"
  note fs = at_depth_first[OF s v os es]
  note fe = at_depth_final[OF e v oe ee]
  note ixe = at_depth_index[OF e ee]
  have dls: "d < length (path s)" using s unfolding at_depth_def by blast
  have dle: "d < length (path e)" using e unfolding at_depth_def by blast
  have rn: "rp_node e (int d) = Some w" using rp_node_nth[OF ee dle] .
  have rj: "rp_index e (int d) = Some j" using rp_index_nth[OF ee dle] .
  have ri: "rp_index s (int d) = Some 0" using rp_index_nth[OF es dls] fs(1) by simp
  have cs: "fsize (node_content w) = sum_list (map nodeSize ?cs)"
    using valid_content_sum[OF v] .
  have noend: "\<not> (rp_depth e = int d \<and> textOffset e \<noteq> 0)"
    using rp_depth_eq[OF dle] fe(1) by blast
  define si :: int where "si = (if Suc d < length (path s) then 1 else 0)"
  have start: "(if rp_depth s > int d
                then Inr (map_option (\<lambda>i. i + 1) (rp_index s (int d)), t)
                else if textOffset s \<noteq> 0 then
                  (case nodeAfter s of
                     Inl e \<Rightarrow> Inl e
                   | Inr None \<Rightarrow> Inl TypeError
                   | Inr (Some na) \<Rightarrow>
                       Inr (map_option (\<lambda>i. i + 1) (rp_index s (int d)), addNode na t))
                else Inr (rp_index s (int d), t)) = Inr (Some si, t)"
  proof (cases "Suc d < length (path s)")
    case True
    then show ?thesis using rp_depth_gt[of d s] ri by (simp add: si_def)
  next
    case False
    then have "Suc d = length (path s)" using dls by linarith
    then have "textOffset s = 0" using fs(2) by blast
    then show ?thesis using False rp_depth_gt[of d s] ri by (simp add: si_def)
  qed
  have si0: "0 \<le> si" by (simp add: si_def)
  obtain t2 where l: "addRange_loop w si j t = Inr t2"
    and s2: "sum_list (map nodeSize t2) = sum_list (map nodeSize t)
        + sum_list (map nodeSize (drop (nat si) (take (nat j) ?cs)))"
    using addRange_loop_size[OF si0 ixe(3), of t] by blast
  have res: "addRange (Some s) (Some e) (int d) t = Inr t2"
    unfolding addRange_def using rn rj start l noend by (auto simp del: One_nat_def)
  have sij: "nat si \<le> nat j"
  proof (cases "Suc d < length (path s)")
    case False
    then show ?thesis by (simp add: si_def)
  next
    case ds: True
    show ?thesis
    proof (cases "Suc d < length (path e)")
      case True
      then have "i \<noteq> j" using two ds by blast
      then have "1 \<le> j" using fs(1) ixe(2) by linarith
      moreover have "si = 1" using ds by (simp add: si_def)
      ultimately show ?thesis by linarith
    next
      case False
      then have "Suc d = length (path e)" using dle by linarith
      then have j: "j = int (length ?cs)" using fe(1) by blast
      note st = at_depth_step[OF s ds es]
      have "si = 1" using ds by (simp add: si_def)
      then show ?thesis using st(1) j fs(1) by linarith
    qed
  qed
  have tk: "sum_list (map nodeSize (take (nat j) ?cs))
      = sum_list (map nodeSize ?cs)
        - (if Suc d < length (path e) then nodeSize (?cs ! nat j) else 0)"
  proof (cases "Suc d < length (path e)")
    case True
    then have "j = int (length ?cs) - 1" using fe(2) by blast
    moreover have "j < int (length ?cs)" using at_depth_step(1)[OF e True ee] .
    ultimately have "Suc (nat j) = length ?cs" using ixe(2) by linarith
    then show ?thesis using sum_take_last[of "nat j" ?cs] True by simp
  next
    case False
    then have "Suc d = length (path e)" using dle by linarith
    then have j: "j = int (length ?cs)" using fe(1) by blast
    then show ?thesis using False by simp
  qed
  have tsi: "sum_list (map nodeSize (take (nat si) ?cs))
      = (if Suc d < length (path s) then nodeSize (?cs ! 0) else 0)"
  proof (cases "Suc d < length (path s)")
    case True
    have "0 < length ?cs" using at_depth_step(1)[OF s True es] fs(1) by simp
    then show ?thesis using sum_take_one[of ?cs] True by (simp add: si_def)
  next
    case False
    then show ?thesis by (simp add: si_def)
  qed
  have "sum_list (map nodeSize t2) = sum_list (map nodeSize t)
         + (fsize (node_content w)
            - (if Suc d < length (path s) then nodeSize (?cs ! 0) else 0)
            - (if Suc d < length (path e) then nodeSize (?cs ! nat j) else 0))"
    using s2 sum_drop_take[OF sij, of ?cs] tk tsi cs by linarith
  then show ?thesis using res by blast
qed

subsection \<open>\<open>replaceThreeWay\<close>\<close>

lemma map_sum_Some_Inr:
  "(map_sum id Some x = Inr y) = (\<exists>z. x = Inr z \<and> y = Some z)"
  by (cases x) auto

lemma replaceThreeWay_rec:
  assumes "rp_depth rf > d" and "rp_depth rt > d" and "rp_index rs d = rp_index re d"
    and "replaceThreeWay schema rf rs re rt d = Inr f"
  shows "\<exists>os' oe' c1 inner closed c5.
           joinable schema rf rs (d + 1) = Inr os'
           \<and> joinable schema re rt (d + 1) = Inr oe'
           \<and> addRange None (Some rf) d [] = Inr c1
           \<and> replaceThreeWay schema rf rs re rt (d + 1) = Inr inner
           \<and> close schema os' inner = Inr closed
           \<and> addRange (Some rt) None d (addNode closed c1) = Inr c5
           \<and> f = Fragment_new c5 None"
  using assms(4) assms(1,2,3)
  by (subst (asm) replaceThreeWay.simps) (auto simp: map_sum_Some_Inr split: sum.splits)

lemma replaceThreeWay_flat:
  assumes "\<not> (rp_depth rf > d \<and> rp_depth rt > d \<and> rp_index rs d = rp_index re d)"
    and "replaceThreeWay schema rf rs re rt d = Inr f"
  shows "\<exists>c1 c2 c3 c4 c5.
           addRange None (Some rf) d [] = Inr c1
           \<and> (if rp_depth rf > d
               then \<exists>os' inner closed. joinable schema rf rs (d + 1) = Inr os'
                      \<and> replaceTwoWay schema rf rs (d + 1) = Inr inner
                      \<and> close schema os' inner = Inr closed \<and> c2 = addNode closed c1
               else c2 = c1)
           \<and> addRange (Some rs) (Some re) d c2 = Inr c3
           \<and> (if rp_depth rt > d
               then \<exists>oe' inner closed. joinable schema re rt (d + 1) = Inr oe'
                      \<and> replaceTwoWay schema re rt (d + 1) = Inr inner
                      \<and> close schema oe' inner = Inr closed \<and> c4 = addNode closed c3
               else c4 = c3)
           \<and> addRange (Some rt) None d c4 = Inr c5
           \<and> f = Fragment_new c5 None"
proof (cases "rp_depth rf > d")
  case f: True
  show ?thesis
  proof (cases "rp_depth rt > d")
    case t: True
    then have ne: "rp_index rs d \<noteq> rp_index re d" using assms(1) f by blast
    show ?thesis
      using assms(2) f t ne
      by (subst (asm) replaceThreeWay.simps) (auto simp: map_sum_Some_Inr split: sum.splits)
  next
    case t: False
    show ?thesis
      using assms(2) f t
      by (subst (asm) replaceThreeWay.simps) (auto simp: map_sum_Some_Inr split: sum.splits)
  qed
next
  case f: False
  show ?thesis
  proof (cases "rp_depth rt > d")
    case t: True
    show ?thesis
      using assms(2) f t
      by (subst (asm) replaceThreeWay.simps) (auto simp: map_sum_Some_Inr split: sum.splits)
  next
    case t: False
    show ?thesis
      using assms(2) f t
      by (subst (asm) replaceThreeWay.simps) (auto simp: map_sum_Some_Inr split: sum.splits)
  qed
qed


lemma single_child_size:
  assumes "valid_fragment (node_content w)" and "length (content (node_content w)) = 1"
  shows "fsize (node_content w) = nodeSize (content (node_content w) ! 0)"
proof -
  obtain c where "content (node_content w) = [c]"
    using assms(2) by (cases "content (node_content w)") auto
  then show ?thesis using valid_content_sum[OF assms(1)] by simp
qed

lemma replaceThreeWay_size:
  assumes "at_depth rf d nf offf" and "at_depth rt d nt offt"
    and "at_depth rs d w os" and "os = int (length (path rs)) - 1 - int d"
    and "at_depth re d w oe"
    and "fsize (node_content w) - oe = int (length (path re)) - 1 - int d"
    and "length (path rs) = length (path rf)" and "length (path re) = length (path rt)"
    and "valid_fragment (node_content nf)" and "valid_fragment (node_content nt)"
    and "valid_fragment (node_content w)"
    and "replaceThreeWay schema rf rs re rt (int d) = Inr f"
  shows "fsize f = offf + (oe - os) + (fsize (node_content nt) - offt)"
  using assms
proof (induction "length (path rf) - d" arbitrary: d nf nt w offf offt os oe f)
  case 0
  then show ?case by (simp add: at_depth_def)
next
  case (Suc k)
  note adf = Suc.prems(1) and adt = Suc.prems(2) and ads = Suc.prems(3) and os = Suc.prems(4)
    and ade = Suc.prems(5) and oe = Suc.prems(6) and ls = Suc.prems(7) and le = Suc.prems(8)
    and vf = Suc.prems(9) and vt = Suc.prems(10) and vw = Suc.prems(11) and res = Suc.prems(12)
  let ?csf = "content (node_content nf)"
  let ?cst = "content (node_content nt)"
  let ?csw = "content (node_content w)"
  obtain i ofs where ef: "path rf ! d = (nf, i, ofs)" by (rule at_depth_entry[OF adf])
  obtain j oft where et: "path rt ! d = (nt, j, oft)" by (rule at_depth_entry[OF adt])
  obtain a ofa where es: "path rs ! d = (w, a, ofa)" by (rule at_depth_entry[OF ads])
  obtain b ofb where ee: "path re ! d = (w, b, ofb)" by (rule at_depth_entry[OF ade])
  let ?Sf = "sum_list (map nodeSize (take (nat i) ?csf))"
  let ?St = "sum_list (map nodeSize (take (nat j) ?cst))"
  let ?cf = "?csf ! nat i"
  let ?ct = "?cst ! nat j"
  have dlf: "d < length (path rf)" using adf unfolding at_depth_def by blast
  have dlt: "d < length (path rt)" using adt unfolding at_depth_def by blast
  have dls: "d < length (path rs)" using ads unfolding at_depth_def by blast
  have dle: "d < length (path re)" using ade unfolding at_depth_def by blast
  have ct: "fsize (node_content nt) = sum_list (map nodeSize ?cst)"
    using valid_content_sum[OF vt] .
  note fs = at_depth_first[OF ads vw os es]
  note fe = at_depth_final[OF ade vw oe ee]
  note ixe = at_depth_index[OF ade ee]
  have a0: "a = 0" using fs(1) .
  have ris: "rp_index rs (int d) = Some a" using rp_index_nth[OF es dls] .
  have rie: "rp_index re (int d) = Some b" using rp_index_nth[OF ee dle] .
  have k: "Suc d < length (path rf) \<Longrightarrow> k = length (path rf) - Suc d"
    using Suc.hyps(2) by linarith
  have before: "\<And>c1. addRange None (Some rf) (int d) [] = Inr c1 \<Longrightarrow>
      sum_list (map nodeSize c1)
        = (if Suc d < length (path rf) then ?Sf else offf)"
  proof -
    fix c1 assume a1: "addRange None (Some rf) (int d) [] = Inr c1"
    show "sum_list (map nodeSize c1) = (if Suc d < length (path rf) then ?Sf else offf)"
    proof (cases "Suc d < length (path rf)")
      case True
      then show ?thesis using addRange_before[OF adf ef, of "[]"] a1 by auto
    next
      case False
      then have l: "Suc d = length (path rf)" using dlf by linarith
      have "sum_list (map nodeSize c1) = ?Sf + textOffset rf"
        using addRange_before[OF adf ef, of "[]"] a1 l by auto
      then show ?thesis using at_depth_last(1)[OF adf l ef] False by simp
    qed
  qed
  have after: "\<And>c4 c5. addRange (Some rt) None (int d) c4 = Inr c5 \<Longrightarrow>
      sum_list (map nodeSize c5) = sum_list (map nodeSize c4)
        + (if Suc d < length (path rt)
           then fsize (node_content nt) - ?St - nodeSize ?ct
           else fsize (node_content nt) - offt)"
  proof -
    fix c4 c5 assume a5: "addRange (Some rt) None (int d) c4 = Inr c5"
    show "sum_list (map nodeSize c5) = sum_list (map nodeSize c4)
        + (if Suc d < length (path rt)
           then fsize (node_content nt) - ?St - nodeSize ?ct
           else fsize (node_content nt) - offt)"
    proof (cases "Suc d < length (path rt)")
      case True
      then show ?thesis using addRange_after[OF adt et, of c4] a5 ct by auto
    next
      case False
      then have l: "Suc d = length (path rt)" using dlt by linarith
      have "sum_list (map nodeSize c5) = sum_list (map nodeSize c4)
          + (sum_list (map nodeSize ?cst) - ?St - textOffset rt)"
        using addRange_after[OF adt et, of c4] a5 l by auto
      then show ?thesis using at_depth_last(1)[OF adt l et] False ct by simp
    qed
  qed
  show ?case
  proof (cases "rp_depth rf > int d \<and> rp_depth rt > int d
                 \<and> rp_index rs (int d) = rp_index re (int d)")
    case True
    then have df: "Suc d < length (path rf)" and dt: "Suc d < length (path rt)"
      using rp_depth_gt by blast+
    have ds: "Suc d < length (path rs)" using df ls by simp
    have de: "Suc d < length (path re)" using dt le by simp
    have ab: "b = 0" using True ris rie a0 by simp
    obtain os' oe' c1 inner closed c5 where
      j1: "joinable schema rf rs (int d + 1) = Inr os'"
      and a1: "addRange None (Some rf) (int d) [] = Inr c1"
      and rec: "replaceThreeWay schema rf rs re rt (int d + 1) = Inr inner"
      and cl: "close schema os' inner = Inr closed"
      and a5: "addRange (Some rt) None (int d) (addNode closed c1) = Inr c5"
      and f: "f = Fragment_new c5 None"
      using replaceThreeWay_rec[OF _ _ _ res] True by blast
    note stf = at_depth_step[OF adf df ef]
    note stt = at_depth_step[OF adt dt et]
    note chf = at_depth_child[OF adf df ef vf]
    note cht = at_depth_child[OF adt dt et vt]
    note chs = at_depth_child[OF ads ds es vw]
    let ?c = "?csw ! 0"
    have ads': "at_depth rs (Suc d) ?c (int (length (path rs)) - 1 - int (Suc d))"
      using fs(3)[OF ds] .
    have ade': "at_depth re (Suc d) ?c
        (fsize (node_content ?c) - (int (length (path re)) - 1 - int (Suc d)))"
      using fe(2)[OF de] ab by simp
    have len1: "length ?csw = 1" using fe(2)[OF de] ab by simp
    have vc: "valid_fragment (node_content ?c)"
      using valid_node_content[OF chs(2)] a0 by simp
    have csz: "fsize (node_content w) = 2 + fsize (node_content ?c)"
      using single_child_size[OF vw len1] chs(5) a0 by simp
    have rec': "replaceThreeWay schema rf rs re rt (int (Suc d)) = Inr inner"
      using rec by (simp add: add.commute)
    have inner: "fsize inner = (offf - ?Sf - 1)
        + ((fsize (node_content ?c) - (int (length (path re)) - 1 - int (Suc d)))
           - (int (length (path rs)) - 1 - int (Suc d)))
        + (fsize (node_content ?ct) - (offt - ?St - 1))"
      by (rule Suc.hyps(1)[OF k[OF df] stf(5) stt(5) ads' _ ade' _ ls le
            valid_node_content[OF chf(2)] valid_node_content[OF cht(2)] vc rec']) simp_all
    have ty: "os' = ?cf" using joinable_node[OF j1] chf(1) by simp
    have cs: "nodeSize closed = 2 + fsize inner"
      using close_copy[OF cl] ty nodeSize_copy[OF chf(3,4)] by simp
    have s1: "sum_list (map nodeSize c1) = ?Sf" using before[OF a1] df by simp
    have s5: "sum_list (map nodeSize c5) = sum_list (map nodeSize (addNode closed c1))
        + (fsize (node_content nt) - ?St - nodeSize ?ct)"
      using after[OF a5] dt by simp
    have "fsize f = sum_list (map nodeSize c5)" using f fsize_new[of c5] by simp
    then show ?thesis
      using s1 s5 cs inner addNode_size[of closed c1] cht(5) csz os oe by simp
  next
    case False
    obtain c1 c2 c3 c4 c5 where
      a1: "addRange None (Some rf) (int d) [] = Inr c1"
      and p2: "if rp_depth rf > int d
               then \<exists>os' inner closed. joinable schema rf rs (int d + 1) = Inr os'
                      \<and> replaceTwoWay schema rf rs (int d + 1) = Inr inner
                      \<and> close schema os' inner = Inr closed \<and> c2 = addNode closed c1
               else c2 = c1"
      and a3: "addRange (Some rs) (Some re) (int d) c2 = Inr c3"
      and p4: "if rp_depth rt > int d
               then \<exists>oe' inner closed. joinable schema re rt (int d + 1) = Inr oe'
                      \<and> replaceTwoWay schema re rt (int d + 1) = Inr inner
                      \<and> close schema oe' inner = Inr closed \<and> c4 = addNode closed c3
               else c4 = c3"
      and a5: "addRange (Some rt) None (int d) c4 = Inr c5"
      and f: "f = Fragment_new c5 None"
      using replaceThreeWay_flat[OF False res] by blast
    have two: "Suc d < length (path rs) \<Longrightarrow> Suc d < length (path re) \<Longrightarrow> a \<noteq> b"
      using False ris rie rp_depth_gt[of d rf] rp_depth_gt[of d rt] ls le by auto
    have s1: "sum_list (map nodeSize c1) = (if Suc d < length (path rf) then ?Sf else offf)"
      using before[OF a1] .
    have s2: "sum_list (map nodeSize c2) = sum_list (map nodeSize c1)
        + (if Suc d < length (path rf)
           then 2 + (offf - ?Sf - 1)
                + (fsize (node_content (?csw ! 0)) - (int (length (path rs)) - 1 - int (Suc d)))
           else 0)"
    proof (cases "Suc d < length (path rf)")
      case False
      then have "\<not> rp_depth rf > int d" using rp_depth_gt by blast
      then show ?thesis using p2 False by simp
    next
      case df: True
      then have g: "rp_depth rf > int d" using rp_depth_gt by blast
      have ds: "Suc d < length (path rs)" using df ls by simp
      obtain os' inner closed where j1: "joinable schema rf rs (int d + 1) = Inr os'"
        and tw: "replaceTwoWay schema rf rs (int d + 1) = Inr inner"
        and cl: "close schema os' inner = Inr closed" and c2: "c2 = addNode closed c1"
        using p2 g by auto
      note stf = at_depth_step[OF adf df ef]
      note chf = at_depth_child[OF adf df ef vf]
      note chs = at_depth_child[OF ads ds es vw]
      have vc: "valid_fragment (node_content (?csw ! 0))"
        using valid_node_content[OF chs(2)] a0 by simp
      have tw': "replaceTwoWay schema rf rs (int (Suc d)) = Inr inner"
        using tw by (simp add: add.commute)
      have inner: "fsize inner = (offf - ?Sf - 1)
          + (fsize (node_content (?csw ! 0)) - (int (length (path rs)) - 1 - int (Suc d)))"
        using replaceTwoWay_size[OF stf(5) fs(3)[OF ds] ls[symmetric]
            valid_node_content[OF chf(2)] vc tw'] .
      have ty: "os' = ?cf" using joinable_node[OF j1] chf(1) by simp
      have cs: "nodeSize closed = 2 + fsize inner"
        using close_copy[OF cl] ty nodeSize_copy[OF chf(3,4)] by simp
      show ?thesis using c2 addNode_size[of closed c1] cs inner df by simp
    qed
    have s3: "sum_list (map nodeSize c3) = sum_list (map nodeSize c2)
         + (fsize (node_content w)
            - (if Suc d < length (path rs) then nodeSize (?csw ! 0) else 0)
            - (if Suc d < length (path re) then nodeSize (?csw ! nat b) else 0))"
      using addRange_between[OF ads os ade oe vw es ee two, of c2] a3 by auto
    have s4: "sum_list (map nodeSize c4) = sum_list (map nodeSize c3)
        + (if Suc d < length (path rt)
           then 2 + (fsize (node_content (?csw ! nat b))
                     - (int (length (path re)) - 1 - int (Suc d)))
                + (fsize (node_content ?ct) - (offt - ?St - 1))
           else 0)"
    proof (cases "Suc d < length (path rt)")
      case False
      then have "\<not> rp_depth rt > int d" using rp_depth_gt by blast
      then show ?thesis using p4 False by simp
    next
      case dt: True
      then have g: "rp_depth rt > int d" using rp_depth_gt by blast
      have de: "Suc d < length (path re)" using dt le by simp
      obtain oe' inner closed where j2: "joinable schema re rt (int d + 1) = Inr oe'"
        and tw: "replaceTwoWay schema re rt (int d + 1) = Inr inner"
        and cl: "close schema oe' inner = Inr closed" and c4: "c4 = addNode closed c3"
        using p4 g by auto
      note stt = at_depth_step[OF adt dt et]
      note cht = at_depth_child[OF adt dt et vt]
      note che = at_depth_child[OF ade de ee vw]
      have tw': "replaceTwoWay schema re rt (int (Suc d)) = Inr inner"
        using tw by (simp add: add.commute)
      have ade': "at_depth re (Suc d) (?csw ! nat b)
          (fsize (node_content (?csw ! nat b)) - (int (length (path re)) - 1 - int (Suc d)))"
        using fe(2)[OF de] by blast
      have inner: "fsize inner
          = (fsize (node_content (?csw ! nat b)) - (int (length (path re)) - 1 - int (Suc d)))
            + (fsize (node_content ?ct) - (offt - ?St - 1))"
        using replaceTwoWay_size[OF ade' stt(5) le valid_node_content[OF che(2)]
            valid_node_content[OF cht(2)] tw'] .
      have ty: "oe' = ?csw ! nat b" using joinable_node[OF j2] che(1) by simp
      have cs: "nodeSize closed = 2 + fsize inner"
        using close_copy[OF cl] ty nodeSize_copy[OF che(3,4)] by simp
      show ?thesis using c4 addNode_size[of closed c3] cs inner dt by simp
    qed
    have s5: "sum_list (map nodeSize c5) = sum_list (map nodeSize c4)
        + (if Suc d < length (path rt)
           then fsize (node_content nt) - ?St - nodeSize ?ct
           else fsize (node_content nt) - offt)"
      using after[OF a5] .
    have fz: "fsize f = sum_list (map nodeSize c5)" using f fsize_new[of c5] by simp
    have n0: "Suc d < length (path rs) \<Longrightarrow> nodeSize (?csw ! 0) = 2 + fsize (node_content (?csw ! 0))"
      using at_depth_child(5)[OF ads _ es vw] a0 by simp
    have nb: "Suc d < length (path re) \<Longrightarrow>
        nodeSize (?csw ! nat b) = 2 + fsize (node_content (?csw ! nat b))"
      using at_depth_child(5)[OF ade _ ee vw] by simp
    have nt: "Suc d < length (path rt) \<Longrightarrow> nodeSize ?ct = 2 + fsize (node_content ?ct)"
      using at_depth_child(5)[OF adt _ et vt] by simp
    show ?thesis
    proof (cases "Suc d < length (path rf)")
      case df: True
      then have ds: "Suc d < length (path rs)" using ls by simp
      show ?thesis
      proof (cases "Suc d < length (path rt)")
        case dt: True
        then have de: "Suc d < length (path re)" using le by simp
        show ?thesis
          using s1 s2 s3 s4 s5 fz n0[OF ds] nb[OF de] nt[OF dt] df ds dt de os oe by simp
      next
        case dt: False
        then have de: "\<not> Suc d < length (path re)" using le by simp
        show ?thesis
          using s1 s2 s3 s4 s5 fz n0[OF ds] df ds dt de os oe dle by simp
      qed
    next
      case df: False
      then have ds: "\<not> Suc d < length (path rs)" using ls by simp
      show ?thesis
      proof (cases "Suc d < length (path rt)")
        case dt: True
        then have de: "Suc d < length (path re)" using le by simp
        show ?thesis
          using s1 s2 s3 s4 s5 fz nb[OF de] nt[OF dt] df ds dt de os oe dls by simp
      next
        case dt: False
        then have de: "\<not> Suc d < length (path re)" using le by simp
        show ?thesis
          using s1 s2 s3 s4 s5 fz df ds dt de os oe dls dle by simp
      qed
    qed
  qed
qed

subsection \<open>The wrapped slice of \<open>prepareSliceForReplace\<close>\<close>

lemma open_first_loop:
  assumes "int k \<le> openStart_loop True (firstChild f)"
  shows "open_first k f"
  using assms
proof (induction k arbitrary: f)
  case 0
  then show ?case by simp
next
  case (Suc k)
  obtain c cs where c: "content f = c # cs"
    using Suc.prems by (cases "content f") (auto simp: firstChild_def)
  have l: "int (Suc k) \<le> openStart_loop True (Some c)"
    using Suc.prems c by (simp add: firstChild_def)
  then have nl: "\<not> node_isLeaf c" by (auto split: if_splits)
  then have "int k \<le> openStart_loop True (firstChild (node_content c))" using l by simp
  then have "open_first k (node_content c)" by (rule Suc.IH)
  then show ?case using c nl by simp
qed

lemma open_last_loop:
  assumes "int k \<le> openEnd_loop True (lastChild f)"
  shows "open_last k f"
  using assms
proof (induction k arbitrary: f)
  case 0
  then show ?case by simp
next
  case (Suc k)
  have ne: "content f \<noteq> []"
    using Suc.prems by (auto simp: lastChild_def split: if_splits)
  have l: "int (Suc k) \<le> openEnd_loop True (Some (last (content f)))"
    using Suc.prems ne by (simp add: lastChild_def)
  then have nl: "\<not> node_isLeaf (last (content f))" by (auto split: if_splits)
  then have "int k \<le> openEnd_loop True (lastChild (node_content (last (content f))))"
    using l by simp
  then have "open_last k (node_content (last (content f)))" by (rule Suc.IH)
  then show ?case using ne nl by simp
qed

lemma nodeSize_nonleaf:
  assumes "\<not> node_isLeaf c"
  shows "nodeSize c = 2 + fsize (node_content c)" and "\<not> isText c"
  using assms by (cases c; simp)+

lemma open_first_size:
  assumes "valid_fragment f" and "open_first k f"
  shows "2 * int k \<le> fsize f"
  using assms
proof (induction k arbitrary: f)
  case 0
  then show ?case using valid_fragment_size_nonneg by simp
next
  case (Suc k)
  obtain c cs where c: "content f = c # cs" and nl: "\<not> node_isLeaf c"
    and o: "open_first k (node_content c)"
    using Suc.prems(2) by (cases "content f") auto
  have va: "list_all valid_node (content f)" and sz: "fsize f = sum_list (map nodeSize (content f))"
    using Suc.prems(1) by (simp_all add: valid_fragment_iff)
  have vc: "valid_node c" using va c by simp
  have "2 * int k \<le> fsize (node_content c)"
    using Suc.IH[OF valid_node_content[OF vc] o] .
  moreover have "0 \<le> sum_list (map nodeSize cs)" using va c by (simp add: sum_nodeSize_nonneg)
  ultimately show ?case using sz c nodeSize_nonleaf(1)[OF nl] by simp
qed

lemma open_last_size:
  assumes "valid_fragment f" and "open_last k f"
  shows "2 * int k \<le> fsize f"
  using assms
proof (induction k arbitrary: f)
  case 0
  then show ?case using valid_fragment_size_nonneg by simp
next
  case (Suc k)
  let ?c = "last (content f)"
  have ne: "content f \<noteq> []" and nl: "\<not> node_isLeaf ?c"
    and o: "open_last k (node_content ?c)"
    using Suc.prems(2) by auto
  have va: "list_all valid_node (content f)" and sz: "fsize f = sum_list (map nodeSize (content f))"
    using Suc.prems(1) by (simp_all add: valid_fragment_iff)
  have vc: "valid_node ?c" using va ne by (rule list_all_last)
  have "2 * int k \<le> fsize (node_content ?c)"
    using Suc.IH[OF valid_node_content[OF vc] o] .
  moreover have "0 \<le> sum_list (map nodeSize (butlast (content f)))"
    using list_all_butlast[OF va] by (simp add: sum_nodeSize_nonneg)
  moreover have "sum_list (map nodeSize (content f))
      = sum_list (map nodeSize (butlast (content f))) + nodeSize ?c"
    using ne by (intro sum_butlast_last) simp
  ultimately show ?case using sz nodeSize_nonleaf(1)[OF nl] by simp
qed


lemma sum_take_le:
  assumes "list_all valid_node cs" and "a \<le> b"
  shows "sum_list (map nodeSize (take a cs)) \<le> sum_list (map nodeSize (take b cs))"
proof -
  have "list_all valid_node (drop a (take b cs))"
    using assms(1) by (auto simp: list_all_iff dest: in_set_dropD in_set_takeD)
  then have "0 \<le> sum_list (map nodeSize (drop a (take b cs)))" by (rule sum_nodeSize_nonneg)
  then show ?thesis using sum_drop_take[OF assms(2), of cs] by linarith
qed

text \<open>
  A position \<open>k\<close> tokens into a content that opens \<open>k\<close> levels at its start resolves to
  a path of exactly \<open>k\<close> more levels, and likewise from the end.
\<close>

lemma first_len:
  assumes "at_depth r d n (int k)" and "valid_fragment (node_content n)"
    and "open_first k (node_content n)"
  shows "length (path r) = d + k + 1"
  using assms
proof (induction k arbitrary: d n)
  case 0
  have "int (length (path r)) - 1 - int d \<le> 0"
    using at_depth_lower[OF 0(1,2)] by simp
  moreover have "d < length (path r)" using 0(1) unfolding at_depth_def by blast
  ultimately show ?case by linarith
next
  case (Suc k)
  let ?cs = "content (node_content n)"
  obtain c rest where c: "?cs = c # rest" and nl: "\<not> node_isLeaf c"
    and o: "open_first k (node_content c)"
    using Suc.prems(3) by (cases ?cs) auto
  note va = valid_content_children[OF Suc.prems(2)]
  have vc: "valid_node c" using va c by simp
  have big: "2 * int k + 2 \<le> nodeSize c"
    using open_first_size[OF valid_node_content[OF vc] o] nodeSize_nonleaf(1)[OF nl] by simp
  obtain i ofs where e: "path r ! d = (n, i, ofs)" by (rule at_depth_entry[OF Suc.prems(1)])
  note ix = at_depth_index[OF Suc.prems(1) e]
  let ?S = "sum_list (map nodeSize (take (nat i) ?cs))"
  have dl: "d < length (path r)" using Suc.prems(1) unfolding at_depth_def by blast
  have Sle: "?S \<le> int (Suc k)"
  proof (cases "Suc d = length (path r)")
    case True
    note al = at_depth_last[OF Suc.prems(1) True e]
    have "0 \<le> textOffset r" using al(3) by linarith
    then show ?thesis using al(1) by linarith
  next
    case False
    then have "Suc d < length (path r)" using dl by linarith
    then show ?thesis using at_depth_step(3)[OF Suc.prems(1) _ e] by simp
  qed
  have i0: "i = 0"
  proof (rule ccontr)
    assume "i \<noteq> 0"
    then have "Suc 0 \<le> nat i" using ix by linarith
    then have "sum_list (map nodeSize (take (Suc 0) ?cs)) \<le> ?S" using sum_take_le[OF va] by blast
    then show False using c big Sle by simp
  qed
  have deeper: "Suc d < length (path r)"
  proof (rule ccontr)
    assume "\<not> Suc d < length (path r)"
    then have l: "Suc d = length (path r)" using dl by linarith
    note al = at_depth_last[OF Suc.prems(1) l e]
    have "textOffset r \<noteq> 0" using al(1) i0 by simp
    then have "isText (?cs ! nat i)" using al(3) by blast
    then show False using i0 c nodeSize_nonleaf(2)[OF nl] by simp
  qed
  note st = at_depth_step[OF Suc.prems(1) deeper e]
  have eq: "int (Suc k) - ?S - 1 = int k" using i0 by simp
  have "at_depth r (Suc d) c (int k)" using st(5) i0 c unfolding eq by simp
  then have "length (path r) = Suc d + k + 1"
    using Suc.IH[OF _ valid_node_content[OF vc] o] by blast
  then show ?case by simp
qed

lemma last_len:
  assumes "at_depth r d n (fsize (node_content n) - int k)"
    and "valid_fragment (node_content n)" and "open_last k (node_content n)"
  shows "length (path r) = d + k + 1"
  using assms
proof (induction k arbitrary: d n)
  case 0
  have "int (length (path r)) - 1 - int d \<le> 0"
    using at_depth_upper[OF 0(1,2)] by simp
  moreover have "d < length (path r)" using 0(1) unfolding at_depth_def by blast
  ultimately show ?case by linarith
next
  case (Suc k)
  let ?cs = "content (node_content n)"
  let ?c = "last ?cs"
  let ?off = "fsize (node_content n) - int (Suc k)"
  have ne: "?cs \<noteq> []" and nl: "\<not> node_isLeaf ?c" and o: "open_last k (node_content ?c)"
    using Suc.prems(3) by auto
  note va = valid_content_children[OF Suc.prems(2)]
  have cs: "fsize (node_content n) = sum_list (map nodeSize ?cs)"
    using valid_content_sum[OF Suc.prems(2)] .
  have vc: "valid_node ?c" using va ne by (rule list_all_last)
  have big: "2 * int k + 2 \<le> nodeSize ?c"
    using open_last_size[OF valid_node_content[OF vc] o] nodeSize_nonleaf(1)[OF nl] by simp
  have lastn: "?c = ?cs ! (length ?cs - 1)" using ne by (rule last_conv_nth)
  have Sl: "Suc (length ?cs - 1) = length ?cs" using ne by (cases ?cs) auto
  have tl: "sum_list (map nodeSize (take (length ?cs - 1) ?cs))
      = sum_list (map nodeSize ?cs) - nodeSize ?c"
    using sum_take_last[OF Sl] lastn by simp
  obtain i ofs where e: "path r ! d = (n, i, ofs)" by (rule at_depth_entry[OF Suc.prems(1)])
  note ix = at_depth_index[OF Suc.prems(1) e]
  let ?S = "sum_list (map nodeSize (take (nat i) ?cs))"
  have dl: "d < length (path r)" using Suc.prems(1) unfolding at_depth_def by blast
  have inside: "i < int (length ?cs) \<and> ?off \<le> ?S + nodeSize (?cs ! nat i)"
  proof (cases "Suc d = length (path r)")
    case True
    note al = at_depth_last[OF Suc.prems(1) True e]
    show ?thesis
    proof (cases "textOffset r = 0")
      case z: True
      then have S: "?S = ?off" using al(1) by linarith
      have "nat i \<noteq> length ?cs" using S cs by auto
      then have il: "nat i < length ?cs" using ix by linarith
      have "1 \<le> nodeSize (?cs ! nat i)"
        using va il by (simp add: list_all_length valid_node_size)
      then show ?thesis using S il ix by linarith
    next
      case False
      then show ?thesis using al(1,3) by linarith
    qed
  next
    case False
    then have deeper: "Suc d < length (path r)" using dl by linarith
    show ?thesis using at_depth_step(1,4)[OF Suc.prems(1) deeper e] by simp
  qed
  have il: "nat i < length ?cs" using inside ix by linarith
  have i1: "nat i = length ?cs - 1"
  proof (rule ccontr)
    assume "nat i \<noteq> length ?cs - 1"
    then have "Suc (nat i) \<le> length ?cs - 1" using il by linarith
    then have "sum_list (map nodeSize (take (Suc (nat i)) ?cs))
        \<le> sum_list (map nodeSize (take (length ?cs - 1) ?cs))" using sum_take_le[OF va] by blast
    moreover have "sum_list (map nodeSize (take (Suc (nat i)) ?cs)) = ?S + nodeSize (?cs ! nat i)"
      using il by (simp add: take_Suc_conv_app_nth)
    ultimately show False using inside tl cs big by linarith
  qed
  have child: "?cs ! nat i = ?c" using i1 lastn by simp
  have S: "?S = sum_list (map nodeSize ?cs) - nodeSize ?c" using i1 tl by simp
  have deeper: "Suc d < length (path r)"
  proof (rule ccontr)
    assume "\<not> Suc d < length (path r)"
    then have l: "Suc d = length (path r)" using dl by linarith
    note al = at_depth_last[OF Suc.prems(1) l e]
    have "textOffset r \<noteq> 0" using al(1) S cs big by linarith
    then have "isText (?cs ! nat i)" using al(3) by blast
    then show False using child nodeSize_nonleaf(2)[OF nl] by simp
  qed
  note st = at_depth_step[OF Suc.prems(1) deeper e]
  have eq: "?off - ?S - 1 = fsize (node_content ?c) - int k"
    using S cs nodeSize_nonleaf(1)[OF nl] by simp
  have "at_depth r (Suc d) ?c (fsize (node_content ?c) - int k)"
    using st(5) unfolding eq child .
  then have "length (path r) = Suc d + k + 1"
    using Suc.IH[OF _ valid_node_content[OF vc] o] by blast
  then show ?case by simp
qed

lemma wrap_loop_chain:
  assumes "\<not> isText n" and "valid_fragment (node_content n)"
    and "fsize (node_content n) = C + 2 * int m"
    and "open_first (m + a) (node_content n)" and "open_last (m + b) (node_content n)"
    and "single_chain m (node_content n)"
    and "0 \<le> i \<Longrightarrow> \<not> node_isLeaf n"
    and "\<And>j. 0 \<le> j \<Longrightarrow> j \<le> i \<Longrightarrow>
           \<exists>x. rp_node along j = Some x \<and> \<not> isText x \<and> (1 \<le> j \<longrightarrow> \<not> node_isLeaf x)"
    and "- 1 \<le> i"
    and "wrap_loop along i n = Inr w"
  shows "\<not> isText w \<and> valid_fragment (node_content w)
       \<and> fsize (node_content w) = C + 2 * (int m + i + 1)
       \<and> open_first (m + nat (i + 1) + a) (node_content w)
       \<and> open_last (m + nat (i + 1) + b) (node_content w)
       \<and> single_chain (m + nat (i + 1)) (node_content w)"
  using assms
proof (induction "nat (i + 1)" arbitrary: i n m)
  case 0
  then have i: "i = - 1" by linarith
  then have "w = n" using 0(11) by (subst (asm) wrap_loop.simps) simp
  then show ?case using 0 i by simp
next
  case (Suc k)
  then have i0: "0 \<le> i" by linarith
  obtain x where x: "rp_node along i = Some x" and xt: "\<not> isText x"
    and xl: "1 \<le> i \<longrightarrow> \<not> node_isLeaf x"
    using Suc.prems(8)[of i] i0 by auto
  let ?n' = "Node_copy x (Fragment_from_node n)"
  have w: "wrap_loop along (i - 1) ?n' = Inr w"
    using Suc.prems(10) i0 x by (subst (asm) wrap_loop.simps) simp
  have nl: "\<not> node_isLeaf n" using Suc.prems(7) i0 by blast
  have c': "node_content ?n' = Fragment [n] (nodeSize n)"
    using content_copy[OF xt] by (simp add: Fragment_from_node_def Fragment_new_def)
  have vn: "valid_node n" using Suc.prems(1,2) nl by (cases n) auto
  have ns: "nodeSize n = 2 + fsize (node_content n)" using nodeSize_nonleaf(1)[OF nl] .
  have p1: "\<not> isText ?n'" using xt by (cases x) auto
  have p2: "valid_fragment (node_content ?n')" using c' vn by simp
  have p3: "fsize (node_content ?n') = C + 2 * int (Suc m)"
    using c' ns Suc.prems(3) by simp
  have p4: "open_first (Suc m + a) (node_content ?n')" using c' nl Suc.prems(4) by simp
  have p5: "open_last (Suc m + b) (node_content ?n')" using c' nl Suc.prems(5) by simp
  have p6: "single_chain (Suc m) (node_content ?n')" using c' nl Suc.prems(6) by simp
  have p7: "0 \<le> i - 1 \<Longrightarrow> \<not> node_isLeaf ?n'" using xl xt by (cases x) auto
  have p8: "\<And>j. 0 \<le> j \<Longrightarrow> j \<le> i - 1 \<Longrightarrow>
           \<exists>x. rp_node along j = Some x \<and> \<not> isText x \<and> (1 \<le> j \<longrightarrow> \<not> node_isLeaf x)"
    using Suc.prems(8) by simp
  have k: "k = nat (i - 1 + 1)" using Suc.hyps(2) by linarith
  have e1: "Suc m + nat (i - 1 + 1) = m + nat (i + 1)" using i0 by linarith
  have e2: "int (Suc m) + (i - 1) + 1 = int m + i + 1" by simp
  have "\<not> isText w \<and> valid_fragment (node_content w)
       \<and> fsize (node_content w) = C + 2 * (int (Suc m) + (i - 1) + 1)
       \<and> open_first (Suc m + nat (i - 1 + 1) + a) (node_content w)
       \<and> open_last (Suc m + nat (i - 1 + 1) + b) (node_content w)
       \<and> single_chain (Suc m + nat (i - 1 + 1)) (node_content w)"
    by (rule Suc.hyps(1)[OF k p1 p2 p3 p4 p5 p6 p7 p8 _ w]) (use i0 in simp_all)
  then show ?case unfolding e1 e2 .
qed

text \<open>
  Down a chain of single children the first path and the last path visit the same
  nodes.
\<close>

lemma chain_descend:
  assumes "single_chain m (node_content w)" and "valid_fragment (node_content w)"
    and "at_depth rs 0 w (int (length (path rs)) - 1)"
    and "at_depth re 0 w (fsize (node_content w) - (int (length (path re)) - 1))"
    and "d \<le> m" and "d < length (path rs)" and "d < length (path re)"
  shows "\<exists>wd. at_depth rs d wd (int (length (path rs)) - 1 - int d)
           \<and> at_depth re d wd (fsize (node_content wd) - (int (length (path re)) - 1 - int d))
           \<and> valid_fragment (node_content wd)
           \<and> fsize (node_content wd) = fsize (node_content w) - 2 * int d
           \<and> single_chain (m - d) (node_content wd)"
  using assms(5,6,7)
proof (induction d)
  case 0
  show ?case using assms(1,2,3,4) by (intro exI[of _ w]) simp
next
  case (Suc d)
  then obtain wd where s: "at_depth rs d wd (int (length (path rs)) - 1 - int d)"
    and e: "at_depth re d wd (fsize (node_content wd) - (int (length (path re)) - 1 - int d))"
    and v: "valid_fragment (node_content wd)"
    and sz: "fsize (node_content wd) = fsize (node_content w) - 2 * int d"
    and ch: "single_chain (m - d) (node_content wd)"
    by auto
  let ?cs = "content (node_content wd)"
  obtain m' where m': "m - d = Suc m'" using Suc.prems(1) by (cases "m - d") auto
  obtain c where c: "?cs = [c]" and nl: "\<not> node_isLeaf c"
    and ch': "single_chain m' (node_content c)"
    using ch unfolding m' by (cases ?cs rule: list.exhaust; cases "tl ?cs") (auto split: list.splits)
  obtain a ofa where es: "path rs ! d = (wd, a, ofa)" by (rule at_depth_entry[OF s])
  obtain b ofb where ee: "path re ! d = (wd, b, ofb)" by (rule at_depth_entry[OF e])
  have s': "at_depth rs (Suc d) (?cs ! 0) (int (length (path rs)) - 1 - int (Suc d))"
    using at_depth_first(3)[OF s v _ es] Suc.prems(2) by simp
  have oe: "fsize (node_content wd) - (fsize (node_content wd) - (int (length (path re)) - 1 - int d))
      = int (length (path re)) - 1 - int d" by simp
  note fe = at_depth_final(2)[OF e v oe ee Suc.prems(3)]
  have b0: "nat b = 0" using fe c by simp
  have e': "at_depth re (Suc d) (?cs ! 0)
      (fsize (node_content (?cs ! 0)) - (int (length (path re)) - 1 - int (Suc d)))"
    using fe b0 by simp
  have vc: "valid_node c" using valid_content_children[OF v] c by simp
  have "fsize (node_content wd) = nodeSize c" using valid_content_sum[OF v] c by simp
  then have sz': "fsize (node_content c) = fsize (node_content w) - 2 * int (Suc d)"
    using sz nodeSize_nonleaf(1)[OF nl] by simp
  have "m - Suc d = m'" using m' by linarith
  then show ?case
    using s' e' valid_node_content[OF vc] sz' ch' c by (intro exI[of _ c]) simp
qed

text \<open>The nodes of a resolved path hold content: none is a text node or, below the root, a leaf.\<close>

lemma path_nodes:
  assumes "at_depth r d n off" and "valid_fragment (node_content n)" and "\<not> isText n"
    and "1 \<le> d \<Longrightarrow> \<not> node_isLeaf n" and "d \<le> j" and "j < length (path r)"
  shows "\<exists>x. rp_node r (int j) = Some x \<and> \<not> isText x \<and> (1 \<le> j \<longrightarrow> \<not> node_isLeaf x)"
  using assms
proof (induction "j - d" arbitrary: d n off)
  case 0
  then have jd: "j = d" by linarith
  obtain i ofs where e: "path r ! d = (n, i, ofs)" by (rule at_depth_entry[OF 0(2)])
  have "rp_node r (int d) = Some n" using rp_node_nth[OF e] 0(7) jd by simp
  then show ?case using 0(4,5) jd by auto
next
  case (Suc k)
  then have deeper: "Suc d < length (path r)" by linarith
  obtain i ofs where e: "path r ! d = (n, i, ofs)" by (rule at_depth_entry[OF Suc.prems(1)])
  note st = at_depth_step[OF Suc.prems(1) deeper e]
  note ch = at_depth_child[OF Suc.prems(1) deeper e Suc.prems(2)]
  have k: "k = j - Suc d" using Suc.hyps(2) by linarith
  show ?case
    by (rule Suc.hyps(1)[OF k st(5) valid_node_content[OF ch(2)] ch(3) ch(4)])
       (use Suc.hyps(2) Suc.prems(6) in simp_all)
qed

subsection \<open>Cutting at a resolved position\<close>

lemma cut_loop_left_size:
  assumes va: "list_all valid_node cs" and k: "k \<le> length cs"
    and pos: "off = sum_list (map nodeSize (take k cs))
         \<or> (k < length cs \<and> isText (cs ! k) \<and> sum_list (map nodeSize (take k cs)) < off
            \<and> off < sum_list (map nodeSize (take k cs)) + nodeSize (cs ! k))"
  shows "\<exists>r. cut_loop cs 0 0 off = Inr r \<and> sum_list (map nodeSize r) = off"
proof -
  let ?S = "sum_list (map nodeSize (take k cs))"
  have vt: "list_all valid_node (take k cs)"
    using va by (auto simp: list_all_iff dest: in_set_takeD)
  have S0: "0 \<le> ?S" using vt by (rule sum_nodeSize_nonneg)
  have Sle: "?S \<le> off" using pos by linarith
  have z: "0 + ?S = ?S" by simp
  have "cut_loop (take k cs @ drop k cs) 0 0 off =
           (case cut_loop (drop k cs) (0 + ?S) 0 off of
              Inl e \<Rightarrow> Inl e | Inr r \<Rightarrow> Inr (take k cs @ r))"
    by (rule cut_loop_take[OF vt]) (use Sle in simp_all)
  then have split: "cut_loop cs 0 0 off =
           (case cut_loop (drop k cs) ?S 0 off of
              Inl e \<Rightarrow> Inl e | Inr r \<Rightarrow> Inr (take k cs @ r))"
    unfolding z append_take_drop_id .
  show ?thesis
  proof (cases "off = ?S")
    case True
    have "cut_loop (drop k cs) ?S 0 off = Inr []" using True by (intro cut_loop_done) simp
    then have "cut_loop cs 0 0 off = Inr (take k cs)" unfolding split by simp
    then show ?thesis using True by simp
  next
    case False
    then have kl: "k < length cs" and tx: "isText (cs ! k)" and lo: "?S < off"
      and hi: "off < ?S + nodeSize (cs ! k)" using pos by blast+
    obtain ms s where c: "cs ! k = TextNode ms s" using tx by (cases "cs ! k") auto
    define t where "t = nat (off - ?S)"
    have tl: "0 < t" "t < length s" using lo hi c by (simp_all add: t_def)
    let ?s1 = "take t s" and ?s2 = "drop t s"
    have s: "s = ?s1 @ ?s2" by simp
    have ne: "?s1 \<noteq> []" "?s2 \<noteq> []" using tl by auto
    have l1: "int (length ?s1) = off - ?S" using tl lo by (simp add: t_def)
    have "drop k cs = TextNode ms s # drop (Suc k) cs"
      using Cons_nth_drop_Suc[OF kl] c by simp
    then have dr: "drop k cs = TextNode ms (?s1 @ ?s2) # drop (Suc k) cs"
      unfolding append_take_drop_id .
    have e1: "?S + int (length ?s1) = off" using l1 by linarith
    have "cut_loop (TextNode ms (?s1 @ ?s2) # drop (Suc k) cs) ?S 0 (?S + int (length ?s1))
        = Inr [TextNode ms ?s1]"
      using cut_loop_merged_left[OF ne S0] .
    then have "cut_loop (drop k cs) ?S 0 off = Inr [TextNode ms ?s1]"
      unfolding dr e1 .
    then have "cut_loop cs 0 0 off = Inr (take k cs @ [TextNode ms ?s1])"
      unfolding split by simp
    moreover have "sum_list (map nodeSize (take k cs @ [TextNode ms ?s1])) = off"
      using l1 by simp
    ultimately show ?thesis by blast
  qed
qed

lemma cut_loop_right_size:
  assumes va: "list_all valid_node cs" and k: "k \<le> length cs"
    and pos: "off = sum_list (map nodeSize (take k cs))
         \<or> (k < length cs \<and> isText (cs ! k) \<and> sum_list (map nodeSize (take k cs)) < off
            \<and> off < sum_list (map nodeSize (take k cs)) + nodeSize (cs ! k))"
    and lt: "off < sum_list (map nodeSize cs)"
  shows "\<exists>r. cut_loop cs 0 off (sum_list (map nodeSize cs)) = Inr r
           \<and> sum_list (map nodeSize r) = sum_list (map nodeSize cs) - off"
proof -
  let ?S = "sum_list (map nodeSize (take k cs))"
  let ?sz = "sum_list (map nodeSize cs)"
  have vt: "list_all valid_node (take k cs)"
    using va by (auto simp: list_all_iff dest: in_set_takeD)
  have vd: "\<And>j. list_all valid_node (drop j cs)"
    using va by (auto simp: list_all_iff dest: in_set_dropD)
  have Sle: "?S \<le> off" using pos by linarith
  have S0: "0 \<le> ?S" using vt by (rule sum_nodeSize_nonneg)
  have whole: "?sz = ?S + sum_list (map nodeSize (drop k cs))" by (rule sum_take_drop)
  have z: "0 + ?S = ?S" by simp
  have "cut_loop (take k cs @ drop k cs) 0 off ?sz = cut_loop (drop k cs) (0 + ?S) off ?sz"
    by (rule cut_loop_skip[OF vt]) (use Sle lt in simp_all)
  then have skip: "cut_loop cs 0 off ?sz = cut_loop (drop k cs) ?S off ?sz"
    unfolding z append_take_drop_id .
  have all: "\<And>B p. list_all valid_node B \<Longrightarrow> off \<le> p \<Longrightarrow> p + sum_list (map nodeSize B) = ?sz
      \<Longrightarrow> cut_loop B p off ?sz = Inr B"
  proof -
    fix B p assume B: "list_all valid_node B" and p: "off \<le> p"
      and e: "p + sum_list (map nodeSize B) = ?sz"
    have "cut_loop (B @ []) p off ?sz =
        (case cut_loop [] (p + sum_list (map nodeSize B)) off ?sz of
           Inl e \<Rightarrow> Inl e | Inr r \<Rightarrow> Inr (B @ r))"
      by (rule cut_loop_take[OF B p]) (use e in simp)
    moreover have "cut_loop [] (p + sum_list (map nodeSize B)) off ?sz = Inr []"
      using e by simp
    ultimately show "cut_loop B p off ?sz = Inr B" by (simp only: append_Nil2 sum.case)
  qed
  show ?thesis
  proof (cases "off = ?S")
    case True
    have "cut_loop (drop k cs) ?S off ?sz = Inr (drop k cs)"
      by (rule all[OF vd]) (use True whole in simp_all)
    then have "cut_loop cs 0 off ?sz = Inr (drop k cs)" unfolding skip .
    then show ?thesis using True whole by simp
  next
    case False
    then have kl: "k < length cs" and tx: "isText (cs ! k)" and lo: "?S < off"
      and hi: "off < ?S + nodeSize (cs ! k)" using pos by blast+
    obtain ms s where c: "cs ! k = TextNode ms s" using tx by (cases "cs ! k") auto
    define t where "t = nat (off - ?S)"
    have tl: "0 < t" "t < length s" using lo hi c by (simp_all add: t_def)
    let ?s1 = "take t s" and ?s2 = "drop t s"
    let ?B = "drop (Suc k) cs"
    have ne: "?s1 \<noteq> []" "?s2 \<noteq> []" using tl by auto
    have l1: "int (length ?s1) = off - ?S" using tl lo by (simp add: t_def)
    have l2: "int (length ?s2) = int (length s) - (off - ?S)" using tl lo by (simp add: t_def)
    have "drop k cs = TextNode ms s # ?B"
      using Cons_nth_drop_Suc[OF kl] c by simp
    then have dr: "drop k cs = TextNode ms (?s1 @ ?s2) # ?B"
      unfolding append_take_drop_id .
    have d1: "sum_list (map nodeSize (drop k cs)) = nodeSize (cs ! k) + sum_list (map nodeSize ?B)"
      using kl by (rule sum_drop_Suc)
    have e1: "?S + int (length ?s1) = off" using l1 by linarith
    have e2: "off + (int (length ?s2) + sum_list (map nodeSize ?B)) = ?sz"
      using l2 whole d1 c by simp
    have "cut_loop (TextNode ms (?s1 @ ?s2) # ?B) ?S (?S + int (length ?s1))
           (?S + int (length ?s1) + (int (length ?s2) + sum_list (map nodeSize ?B)))
         = Inr (TextNode ms ?s2 # ?B)"
      using cut_loop_merged_right[OF ne S0 vd] .
    then have "cut_loop (drop k cs) ?S off ?sz = Inr (TextNode ms ?s2 # ?B)"
      unfolding dr e1 e2 .
    then have "cut_loop cs 0 off ?sz = Inr (TextNode ms ?s2 # ?B)" unfolding skip .
    moreover have "sum_list (map nodeSize (TextNode ms ?s2 # ?B)) = ?sz - off"
      using l2 whole d1 c by simp
    ultimately show ?thesis by blast
  qed
qed

lemma Fragment_cut_sizes:
  assumes ad: "at_depth r d n off" and l: "Suc d = length (path r)"
    and v: "valid_fragment (node_content n)"
  shows "\<exists>x. Fragment_cut (node_content n) 0 (Some off) = Inr x \<and> fsize x = off"
    and "\<exists>x. Fragment_cut (node_content n) off None = Inr x
           \<and> fsize x = fsize (node_content n) - off"
proof -
  let ?f = "node_content n"
  let ?cs = "content ?f"
  obtain i ofs where e: "path r ! d = (n, i, ofs)" by (rule at_depth_entry[OF ad])
  note ix = at_depth_index[OF ad e]
  note al = at_depth_last[OF ad l e]
  note va = valid_content_children[OF v]
  have sz: "fsize ?f = sum_list (map nodeSize ?cs)" using valid_content_sum[OF v] .
  have lo: "0 \<le> off" using at_depth_lower[OF ad v] l by linarith
  have hi: "off \<le> fsize ?f" using at_depth_upper[OF ad v] l by linarith
  have k: "nat i \<le> length ?cs" using ix by linarith
  have pos: "off = sum_list (map nodeSize (take (nat i) ?cs))
         \<or> (nat i < length ?cs \<and> isText (?cs ! nat i)
            \<and> sum_list (map nodeSize (take (nat i) ?cs)) < off
            \<and> off < sum_list (map nodeSize (take (nat i) ?cs)) + nodeSize (?cs ! nat i))"
    using al(1,3) ix by linarith
  show "\<exists>x. Fragment_cut ?f 0 (Some off) = Inr x \<and> fsize x = off"
  proof (cases "off = fsize ?f")
    case True
    then show ?thesis using Fragment_cut_whole[of ?f] by simp
  next
    case False
    show ?thesis
    proof (cases "0 < off")
      case True
      obtain r where "cut_loop ?cs 0 0 off = Inr r" "sum_list (map nodeSize r) = off"
        using cut_loop_left_size[OF va k pos] by blast
      then show ?thesis using Fragment_cut_loop[of 0 off ?f r] False True by simp
    next
      case z: False
      then have "off = 0" using lo by linarith
      then show ?thesis using Fragment_cut_empty_range[of 0 off ?f] False by simp
    qed
  qed
  show "\<exists>x. Fragment_cut ?f off None = Inr x \<and> fsize x = fsize ?f - off"
  proof (cases "off = 0")
    case True
    then show ?thesis using Fragment_cut_all[of ?f] by simp
  next
    case False
    show ?thesis
    proof (cases "off < fsize ?f")
      case True
      obtain r where "cut_loop ?cs 0 off (sum_list (map nodeSize ?cs)) = Inr r"
        "sum_list (map nodeSize r) = sum_list (map nodeSize ?cs) - off"
        using cut_loop_right_size[OF va k pos] True sz by auto
      then show ?thesis using Fragment_cut_loop_end[of off ?f r] False True sz by simp
    next
      case z: False
      then have "off = fsize ?f" using hi by linarith
      then show ?thesis using Fragment_cut_empty_end[of off ?f] False by simp
    qed
  qed
qed

subsection \<open>\<open>replaceOuter\<close> and \<open>replace\<close>\<close>

lemma Node_resolve_at_depth:
  assumes "Node_resolve n p = Inr r" and "valid_fragment (node_content n)"
  shows "at_depth r 0 n p" and "pos r = p"
proof -
  have b: "0 \<le> p" "p \<le> fsize (node_content n)"
    using assms(1) by (auto simp: Node_resolve_def split: if_splits)
  obtain pth po where l: "resolve_loop n 0 p = Inr (pth, po)" and g: "good_path n 0 p po pth"
    using resolve_loop_good[OF assms(2) b] by blast
  have r: "r = \<lparr>pos = p, path = pth, parentOffset = po\<rparr>"
    using assms(1) b l by (simp add: Node_resolve_def)
  have "pth \<noteq> []" using g by (cases pth) auto
  then show "at_depth r 0 n p" using g r by (simp add: at_depth_def)
  show "pos r = p" using r by simp
qed

lemma prepare_paths:
  assumes root: "at_depth rf 0 root_node off0" and vd: "valid_fragment (node_content root_node)"
    and nt: "\<not> isText root_node" and vs: "valid_slice slice"
    and os: "openStart slice \<le> rp_depth rf"
    and dep: "rp_depth rf - openStart slice = rp_depth rt - openEnd slice"
    and res: "prepareSliceForReplace slice rf = Inr (rs, re)"
    and d: "int d \<le> rp_depth rf - openStart slice"
  shows "\<exists>wd. at_depth rs d wd (int (length (path rs)) - 1 - int d)
           \<and> at_depth re d wd (fsize (node_content wd) - (int (length (path re)) - 1 - int d))
           \<and> valid_fragment (node_content wd)
           \<and> length (path rs) = length (path rf) \<and> length (path re) = length (path rt)
           \<and> fsize (node_content wd)
               = fsize (slice_content slice) + 2 * (rp_depth rf - openStart slice) - 2 * int d"
proof -
  define extra where "extra = rp_depth rf - openStart slice"
  have v: "valid_fragment (slice_content slice)" and a0: "0 \<le> openStart slice"
    and a1: "openStart slice \<le> openStart_loop True (firstChild (slice_content slice))"
    and b0: "0 \<le> openEnd slice"
    and b1: "openEnd slice \<le> openEnd_loop True (lastChild (slice_content slice))"
    using vs by (simp_all add: valid_slice_def)
  have e0: "0 \<le> extra" using os by (simp add: extra_def)
  have lf: "int (length (path rf)) = rp_depth rf + 1" by (simp add: rp_depth_def)
  have lt: "int (length (path rt)) = rp_depth rt + 1" by (simp add: rp_depth_def)
  have nodes: "\<And>j. 0 \<le> j \<Longrightarrow> j \<le> extra \<Longrightarrow>
      \<exists>x. rp_node rf j = Some x \<and> \<not> isText x \<and> (1 \<le> j \<longrightarrow> \<not> node_isLeaf x)"
  proof -
    fix j :: int assume j: "0 \<le> j" "j \<le> extra"
    have "nat j < length (path rf)" using j a0 lf by (simp add: extra_def)
    then have "\<exists>x. rp_node rf (int (nat j)) = Some x \<and> \<not> isText x
        \<and> (1 \<le> nat j \<longrightarrow> \<not> node_isLeaf x)"
      using path_nodes[OF root vd nt, of "nat j"] by simp
    then show "\<exists>x. rp_node rf j = Some x \<and> \<not> isText x \<and> (1 \<le> j \<longrightarrow> \<not> node_isLeaf x)"
      using j by auto
  qed
  obtain parent where p: "rp_node rf extra = Some parent" and pt: "\<not> isText parent"
    and pl: "1 \<le> extra \<longrightarrow> \<not> node_isLeaf parent"
    using nodes[of extra] e0 by auto
  let ?n0 = "Node_copy parent (slice_content slice)"
  obtain w where w: "wrap_loop rf (extra - 1) ?n0 = Inr w"
    and rs: "Node_resolve w (openStart slice + extra) = Inr rs"
    and re: "Node_resolve w (fsize (node_content w) - openEnd slice - extra) = Inr re"
    using res p
    by (auto simp: prepareSliceForReplace_def Let_def extra_def[symmetric] split: sum.splits)
  have c0: "node_content ?n0 = slice_content slice" using content_copy[OF pt] .
  have q1: "\<not> isText ?n0" using pt by (cases parent) auto
  have q4: "open_first (0 + nat (openStart slice)) (node_content ?n0)"
    unfolding c0 using open_first_loop[of "nat (openStart slice)"] a0 a1 by simp
  have q5: "open_last (0 + nat (openEnd slice)) (node_content ?n0)"
    unfolding c0 using open_last_loop[of "nat (openEnd slice)"] b0 b1 by simp
  have q7: "0 \<le> extra - 1 \<Longrightarrow> \<not> node_isLeaf ?n0" using pl pt by (cases parent) auto
  have q8: "\<And>j. 0 \<le> j \<Longrightarrow> j \<le> extra - 1 \<Longrightarrow>
      \<exists>x. rp_node rf j = Some x \<and> \<not> isText x \<and> (1 \<le> j \<longrightarrow> \<not> node_isLeaf x)"
    using nodes by simp
  have chain: "\<not> isText w \<and> valid_fragment (node_content w)
       \<and> fsize (node_content w) = fsize (slice_content slice) + 2 * (int 0 + (extra - 1) + 1)
       \<and> open_first (0 + nat (extra - 1 + 1) + nat (openStart slice)) (node_content w)
       \<and> open_last (0 + nat (extra - 1 + 1) + nat (openEnd slice)) (node_content w)
       \<and> single_chain (0 + nat (extra - 1 + 1)) (node_content w)"
    by (rule wrap_loop_chain[OF q1 _ _ q4 q5 _ q7 q8 _ w]) (use c0 v e0 in simp_all)
  have vw: "valid_fragment (node_content w)" using chain by blast
  have szw: "fsize (node_content w) = fsize (slice_content slice) + 2 * extra"
    using chain by simp
  have of: "open_first (nat extra + nat (openStart slice)) (node_content w)"
    using chain by simp
  have ol: "open_last (nat extra + nat (openEnd slice)) (node_content w)"
    using chain by simp
  have sc: "single_chain (nat extra) (node_content w)" using chain by simp
  note ars = Node_resolve_at_depth(1)[OF rs vw]
  note are = Node_resolve_at_depth(1)[OF re vw]
  have k1: "openStart slice + extra = int (nat extra + nat (openStart slice))"
    using e0 a0 by simp
  have k2: "fsize (node_content w) - openEnd slice - extra
      = fsize (node_content w) - int (nat extra + nat (openEnd slice))"
    using e0 b0 by simp
  have ls: "length (path rs) = 0 + (nat extra + nat (openStart slice)) + 1"
    using first_len[OF ars[unfolded k1] vw of] .
  have le: "length (path re) = 0 + (nat extra + nat (openEnd slice)) + 1"
    using last_len[OF are[unfolded k2] vw ol] .
  have lsf: "length (path rs) = length (path rf)"
    using ls lf e0 a0 by (simp add: extra_def)
  have "int (length (path re)) = int (length (path rt))"
    using le lt e0 b0 dep by (simp add: extra_def)
  then have let': "length (path re) = length (path rt)" by simp
  have s0: "at_depth rs 0 w (int (length (path rs)) - 1)"
  proof -
    have eq: "openStart slice + extra = int (length (path rs)) - 1" using ls e0 a0 by simp
    show ?thesis using ars unfolding eq .
  qed
  have e0': "at_depth re 0 w (fsize (node_content w) - (int (length (path re)) - 1))"
  proof -
    have eq: "fsize (node_content w) - openEnd slice - extra
        = fsize (node_content w) - (int (length (path re)) - 1)" using le e0 b0 by simp
    show ?thesis using are unfolding eq .
  qed
  have dm: "d \<le> nat extra" using d by (simp add: extra_def)
  have d1: "d < length (path rs)" using dm ls by simp
  have d2: "d < length (path re)" using dm le by simp
  obtain wd where "at_depth rs d wd (int (length (path rs)) - 1 - int d)"
    "at_depth re d wd (fsize (node_content wd) - (int (length (path re)) - 1 - int d))"
    "valid_fragment (node_content wd)"
    "fsize (node_content wd) = fsize (node_content w) - 2 * int d"
    using chain_descend[OF sc vw s0 e0' dm d1 d2] by blast
  then show ?thesis using lsf let' szw by (intro exI[of _ wd]) (simp add: extra_def)
qed

lemma replaceOuter_descend:
  assumes "rp_index rf d = rp_index rt d \<and> d < rp_depth rf - openStart slice"
    and "replaceOuter schema rf rt slice d = Inr r"
  shows "\<exists>inner n i ofs c. replaceOuter schema rf rt slice (d + 1) = Inr inner
           \<and> rp_entry rf d = Some (n, i, ofs)
           \<and> replaceChild (node_content n) i inner = Inr c \<and> r = Node_copy n c"
  using assms(2) assms(1)
  by (subst (asm) replaceOuter.simps) (auto split: sum.splits option.splits)

lemma replaceOuter_empty:
  assumes "\<not> (rp_index rf d = rp_index rt d \<and> d < rp_depth rf - openStart slice)"
    and "fsize (slice_content slice) = 0"
    and "replaceOuter schema rf rt slice d = Inr r"
  shows "\<exists>c n. replaceTwoWay schema rf rt d = Inr c \<and> rp_node rf d = Some n
           \<and> close schema n c = Inr r"
  using assms(3) assms(1,2)
  by (subst (asm) replaceOuter.simps) (auto split: sum.splits option.splits)

lemma replaceOuter_flat:
  assumes "\<not> (rp_index rf d = rp_index rt d \<and> d < rp_depth rf - openStart slice)"
    and "fsize (slice_content slice) \<noteq> 0"
    and "openStart slice = 0 \<and> openEnd slice = 0 \<and> rp_depth rf = d \<and> rp_depth rt = d"
    and "replaceOuter schema rf rt slice d = Inr r"
  shows "\<exists>parent left mid right c. rp_parent rf = Some parent
           \<and> Fragment_cut (node_content parent) 0 (Some (parentOffset rf)) = Inr left
           \<and> Fragment_append left (slice_content slice) = Inr mid
           \<and> Fragment_cut (node_content parent) (parentOffset rt) None = Inr right
           \<and> Fragment_append mid right = Inr c
           \<and> close schema parent c = Inr r"
  using assms(4) assms(1,2,3)
  by (subst (asm) replaceOuter.simps) (auto split: sum.splits option.splits)

lemma replaceOuter_open:
  assumes "\<not> (rp_index rf d = rp_index rt d \<and> d < rp_depth rf - openStart slice)"
    and "fsize (slice_content slice) \<noteq> 0"
    and "\<not> (openStart slice = 0 \<and> openEnd slice = 0 \<and> rp_depth rf = d \<and> rp_depth rt = d)"
    and "replaceOuter schema rf rt slice d = Inr r"
  shows "\<exists>rs re c n. prepareSliceForReplace slice rf = Inr (rs, re)
           \<and> replaceThreeWay schema rf rs re rt d = Inr c
           \<and> rp_node rf d = Some n \<and> close schema n c = Inr r"
  using assms(4) assms(1,2,3)
  by (subst (asm) replaceOuter.simps) (auto split: sum.splits option.splits)


lemma valid_slice_empty:
  assumes "valid_slice slice" and "fsize (slice_content slice) = 0"
  shows "openStart slice = 0" and "openEnd slice = 0"
proof -
  have "content (slice_content slice) = []"
    using assms valid_fragment_size_zero[of "slice_content slice"] by (simp add: valid_slice_def)
  then have "firstChild (slice_content slice) = None" "lastChild (slice_content slice) = None"
    by (simp_all add: firstChild_def lastChild_def)
  then show "openStart slice = 0" "openEnd slice = 0"
    using assms(1) by (simp_all add: valid_slice_def)
qed

lemma replaceChild_size:
  assumes "replaceChild f i x = Inr c" and "0 \<le> i" and "i < int (length (content f))"
  shows "fsize c = fsize f + nodeSize x - nodeSize (content f ! nat i)"
  using assms by (auto simp: replaceChild_def maybeChild_def Fragment_new_def split: if_splits)

lemma replaceOuter_size:
  assumes root: "at_depth rf 0 root_node off0"
    and vr: "valid_fragment (node_content root_node)" and nr: "\<not> isText root_node"
    and vs: "valid_slice slice"
    and os: "openStart slice \<le> rp_depth rf"
    and dep: "rp_depth rf - openStart slice = rp_depth rt - openEnd slice"
    and adf: "at_depth rf d n offf" and adt: "at_depth rt d n offt"
    and v: "valid_fragment (node_content n)" and nn: "\<not> isText n"
    and dle: "int d \<le> rp_depth rf - openStart slice"
    and res: "replaceOuter schema rf rt slice (int d) = Inr r"
  shows "\<exists>c. r = Node_copy n c
           \<and> fsize c = fsize (node_content n) - (offt - offf) + Slice_size slice"
  using adf adt v nn dle res
proof (induction "nat (rp_depth rf - openStart slice - int d)" arbitrary: d n offf offt r
        rule: less_induct)
  case less
  note adf = less.prems(1) and adt = less.prems(2) and v = less.prems(3) and nn = less.prems(4)
    and dle = less.prems(5) and res = less.prems(6)
  let ?cs = "content (node_content n)"
  have a0: "0 \<le> openStart slice" and b0: "0 \<le> openEnd slice"
    using vs by (simp_all add: valid_slice_def)
  obtain i ofs where ef: "path rf ! d = (n, i, ofs)" by (rule at_depth_entry[OF adf])
  obtain j oft where et: "path rt ! d = (n, j, oft)" by (rule at_depth_entry[OF adt])
  have dlf: "d < length (path rf)" using adf unfolding at_depth_def by blast
  have dlt: "d < length (path rt)" using adt unfolding at_depth_def by blast
  have rn: "rp_node rf (int d) = Some n" using rp_node_nth[OF ef dlf] .
  have lf: "int (length (path rf)) = rp_depth rf + 1" by (simp add: rp_depth_def)
  have lt: "int (length (path rt)) = rp_depth rt + 1" by (simp add: rp_depth_def)
  show ?case
  proof (cases "rp_index rf (int d) = rp_index rt (int d)
                 \<and> int d < rp_depth rf - openStart slice")
    case True
    obtain inner n' i' ofs' c where ro: "replaceOuter schema rf rt slice (int d + 1) = Inr inner"
      and en: "rp_entry rf (int d) = Some (n', i', ofs')"
      and rc: "replaceChild (node_content n') i' inner = Inr c" and r: "r = Node_copy n' c"
      using replaceOuter_descend[OF True res] by blast
    have "(n', i', ofs') = (n, i, ofs)" using en rp_entry_nth[OF dlf] ef by simp
    then have n': "n' = n" and i': "i' = i" by simp_all
    have ij: "i = j"
      using True rp_index_nth[OF ef dlf] rp_index_nth[OF et dlt] by simp
    have df: "Suc d < length (path rf)" using True a0 lf by linarith
    have dt: "Suc d < length (path rt)" using True b0 lt dep by linarith
    note stf = at_depth_step[OF adf df ef]
    note stt = at_depth_step[OF adt dt et]
    note chf = at_depth_child[OF adf df ef v]
    note ix = at_depth_index[OF adf ef]
    let ?c = "?cs ! nat i"
    let ?S = "sum_list (map nodeSize (take (nat i) ?cs))"
    have stt': "at_depth rt (Suc d) ?c (offt - ?S - 1)" using stt(5) ij by simp
    have ro': "replaceOuter schema rf rt slice (int (Suc d)) = Inr inner"
      using ro by (simp add: add.commute)
    have m: "nat (rp_depth rf - openStart slice - int (Suc d))
        < nat (rp_depth rf - openStart slice - int d)" using True by linarith
    have dle': "int (Suc d) \<le> rp_depth rf - openStart slice" using True by linarith
    obtain c' where inner: "inner = Node_copy ?c c'"
      and sz: "fsize c' = fsize (node_content ?c) - ((offt - ?S - 1) - (offf - ?S - 1))
                 + Slice_size slice"
      using less.hyps[OF m stf(5) stt' valid_node_content[OF chf(2)] chf(3) dle' ro'] by blast
    have "nodeSize inner = 2 + fsize c'" using inner nodeSize_copy[OF chf(3,4)] by simp
    moreover have "fsize c = fsize (node_content n) + nodeSize inner - nodeSize ?c"
      using replaceChild_size[of "node_content n" i inner c] rc n' i' ix(2) stf(1) by simp
    ultimately have "fsize c = fsize (node_content n) - (offt - offf) + Slice_size slice"
      using sz chf(5) by linarith
    then show ?thesis using r n' by blast
  next
    case nd: False
    show ?thesis
    proof (cases "fsize (slice_content slice) = 0")
      case True
      obtain c n' where tw: "replaceTwoWay schema rf rt (int d) = Inr c"
        and n': "rp_node rf (int d) = Some n'" and cl: "close schema n' c = Inr r"
        using replaceOuter_empty[OF nd True res] by blast
      note z = valid_slice_empty[OF vs True]
      have "int (length (path rf)) = int (length (path rt))" using dep z lf lt by simp
      then have len: "length (path rf) = length (path rt)" by simp
      have "fsize c = offf + (fsize (node_content n) - offt)"
        using replaceTwoWay_size[OF adf adt len v v tw] .
      moreover have "Slice_size slice = 0" using True z by (simp add: Slice_size_def)
      ultimately have "fsize c = fsize (node_content n) - (offt - offf) + Slice_size slice"
        by linarith
      moreover have "r = Node_copy n c" using close_copy[OF cl] n' rn by simp
      ultimately show ?thesis by blast
    next
      case ne: False
      show ?thesis
      proof (cases "openStart slice = 0 \<and> openEnd slice = 0
                     \<and> rp_depth rf = int d \<and> rp_depth rt = int d")
        case True
        obtain parent left mid right c where pa: "rp_parent rf = Some parent"
          and cl: "Fragment_cut (node_content parent) 0 (Some (parentOffset rf)) = Inr left"
          and am: "Fragment_append left (slice_content slice) = Inr mid"
          and cr: "Fragment_cut (node_content parent) (parentOffset rt) None = Inr right"
          and ac: "Fragment_append mid right = Inr c"
          and cs: "close schema parent c = Inr r"
          using replaceOuter_flat[OF nd ne True res] by blast
        have lastf: "Suc d = length (path rf)" using True lf by linarith
        have lastt: "Suc d = length (path rt)" using True lt by linarith
        have p: "parent = n" using pa rn True by (simp add: rp_parent_def)
        have pf: "parentOffset rf = offf" using at_depth_last(2)[OF adf lastf ef] .
        have pt: "parentOffset rt = offt" using at_depth_last(2)[OF adt lastt et] .
        have "fsize left = offf"
          using Fragment_cut_sizes(1)[OF adf lastf v] cl p pf by auto
        moreover have "fsize right = fsize (node_content n) - offt"
          using Fragment_cut_sizes(2)[OF adt lastt v] cr p pt by auto
        moreover have "fsize mid = fsize left + fsize (slice_content slice)"
          using Fragment_append_cached[OF am] .
        moreover have "fsize c = fsize mid + fsize right" using Fragment_append_cached[OF ac] .
        moreover have "Slice_size slice = fsize (slice_content slice)"
          using True by (simp add: Slice_size_def)
        ultimately have "fsize c = fsize (node_content n) - (offt - offf) + Slice_size slice"
          by linarith
        moreover have "r = Node_copy n c" using close_copy[OF cs] p by simp
        ultimately show ?thesis by blast
      next
        case nf: False
        obtain rs re c n' where pr: "prepareSliceForReplace slice rf = Inr (rs, re)"
          and tw: "replaceThreeWay schema rf rs re rt (int d) = Inr c"
          and n': "rp_node rf (int d) = Some n'" and cl: "close schema n' c = Inr r"
          using replaceOuter_open[OF nd ne nf res] by blast
        obtain wd where s: "at_depth rs d wd (int (length (path rs)) - 1 - int d)"
          and e: "at_depth re d wd
                    (fsize (node_content wd) - (int (length (path re)) - 1 - int d))"
          and vw: "valid_fragment (node_content wd)"
          and ls: "length (path rs) = length (path rf)"
          and le: "length (path re) = length (path rt)"
          and sw: "fsize (node_content wd)
               = fsize (slice_content slice) + 2 * (rp_depth rf - openStart slice) - 2 * int d"
          using prepare_paths[OF root vr nr vs os dep pr dle] by blast
        have "fsize c = offf
            + ((fsize (node_content wd) - (int (length (path re)) - 1 - int d))
               - (int (length (path rs)) - 1 - int d))
            + (fsize (node_content n) - offt)"
          by (rule replaceThreeWay_size[OF adf adt s _ e _ ls le v v vw tw]) simp_all
        then have "fsize c = fsize (node_content n) - (offt - offf) + Slice_size slice"
          using sw ls le lf lt dep by (simp add: Slice_size_def)
        moreover have "r = Node_copy n c" using close_copy[OF cl] n' rn by simp
        ultimately show ?thesis by blast
      qed
    qed
  qed
qed

text \<open>
  Whatever the schema accepts: a document that \<open>doc.replace(from, to, slice)\<close> returns
  has the size \<open>doc.content.size - (to - from) + slice.size\<close>.
\<close>

lemma replace_returned_size:
  assumes "valid_node document" and "\<not> node_isLeaf document" and "valid_slice slice"
    and "Node_replace schema document lo hi slice = Inr result"
  shows "fsize (node_content result)
           = fsize (node_content document) - (hi - lo) + Slice_size slice
         \<and> nodeSize result = nodeSize document - (hi - lo) + Slice_size slice"
proof -
  have v: "valid_fragment (node_content document)" using assms(1) by (rule valid_node_content)
  have nt: "\<not> isText document" using nodeSize_nonleaf(2)[OF assms(2)] .
  obtain rf rt where rf: "Node_resolve document lo = Inr rf"
    and rt: "Node_resolve document hi = Inr rt"
    and rp: "replace schema rf rt slice = Inr result"
    using assms(4) by (auto simp: Node_replace_def split: sum.splits)
  have os: "openStart slice \<le> rp_depth rf"
    and dep: "rp_depth rf - openStart slice = rp_depth rt - openEnd slice"
    and ro: "replaceOuter schema rf rt slice (int 0) = Inr result"
    using rp by (auto simp: replace_def split: if_splits)
  note af = Node_resolve_at_depth(1)[OF rf v]
  note at = Node_resolve_at_depth(1)[OF rt v]
  have d0: "int 0 \<le> rp_depth rf - openStart slice" using os by simp
  obtain c where r: "result = Node_copy document c"
    and sz: "fsize c = fsize (node_content document) - (hi - lo) + Slice_size slice"
    using replaceOuter_size[OF af v nt assms(3) os dep af at v nt d0 ro] by blast
  have "fsize (node_content result) = fsize c" using r content_copy[OF nt] by simp
  moreover have "nodeSize result = 2 + fsize c" using r nodeSize_copy[OF nt assms(2)] by simp
  moreover have "nodeSize document = 2 + fsize (node_content document)"
    using nodeSize_nonleaf(1)[OF assms(2)] .
  ultimately show ?thesis using sz by linarith
qed

subsection \<open>\<open>replace\<close> returns a document\<close>













text \<open>
  A schema that rejects the content makes \<open>close\<close> raise, on the same document, positions
  and slice.
\<close>

lemma replace_rejected_content:
  "Node_replace rejecting_schema two_paragraphs 2 6 open_slice = Inl ReplaceError"
  by code_simp




section \<open>Applying a mark step and its inverse\<close>

text \<open>
  C3, as stated: an AddMarkStep over text that already carries the mark applies and
  leaves the document as it is; the inverted step, a RemoveMarkStep, applies too and
  removes the mark, so the result is not the document the step was applied to.
\<close>

theorem mark_step_roundtrip_counterexample:
  "MarkStep_apply any_schema (AddMarkStep 1 4 strong) marked_doc = Inr (StepResult_ok marked_doc)
   \<and> MarkStep_apply any_schema (MarkStep_invert (AddMarkStep 1 4 strong)) marked_doc
       = Inr (StepResult_ok example_doc)
   \<and> \<not> Node_eq example_doc marked_doc"
  by code_simp

end
